theory Spec2Isabelle
  imports Main "HOL-Library.Product_Lexorder" "HOL-Library.List_Lexorder"
begin

section \<open>Python helpers\<close>

text \<open>The exceptions the modelled code can raise.\<close>

datatype error = IndexError | KeyError | AttributeError | ZeroDivisionError | TypeError

text \<open>
  Python list indexing \<open>xs[i]\<close>: a negative index counts from the end, an index out of
  range raises IndexError (\<open>None\<close> here).  \<open>py_pos\<close> is the position read, counted from
  the front.
\<close>

definition py_pos :: "'a list \<Rightarrow> int \<Rightarrow> nat option" where
  "py_pos xs i =
     (let n = int (length xs); j = (if i < 0 then n + i else i)
      in if 0 \<le> j \<and> j < n then Some (nat j) else None)"

definition py_index :: "'a list \<Rightarrow> int \<Rightarrow> 'a option" where
  "py_index xs i = map_option (\<lambda>j. xs ! j) (py_pos xs i)"

text \<open>
  \<open>sorted(xs, key=f, reverse=True)\<close>: descending by key and stable (elements with equal
  keys keep their order).  An element is inserted in front of the first element whose key
  is not greater than its own; the list is built from its right end.
\<close>

fun insort_reverse :: "('a \<Rightarrow> 'k::linorder) \<Rightarrow> 'a \<Rightarrow> 'a list \<Rightarrow> 'a list" where
  "insort_reverse f x [] = [x]"
| "insort_reverse f x (y # ys) =
     (if f y \<le> f x then x # y # ys else y # insort_reverse f x ys)"

definition sorted_reverse :: "('a \<Rightarrow> 'k::linorder) \<Rightarrow> 'a list \<Rightarrow> 'a list" where
  "sorted_reverse f xs = foldr (insort_reverse f) xs []"

text \<open>\<open>itertools.combinations(xs, k)\<close>, in the order itertools yields them.\<close>

fun combinations :: "'a list \<Rightarrow> nat \<Rightarrow> 'a list list" where
  "combinations xs 0 = [[]]"
| "combinations [] (Suc k) = []"
| "combinations (x # xs) (Suc k) =
     map ((#) x) (combinations xs k) @ combinations xs (Suc k)"

text \<open>
  The values the code receives from JSON (the human's request, the decision service's
  reply): Python passes them on untyped.  \<open>J_compound\<close> is a list or an object.  A number
  with a fraction is not a value of the model: with it the code would keep the stacks in
  floating point.
\<close>

datatype json = J_null | J_bool bool | J_int int | J_str string | J_compound

text \<open>
  The integer a value counts as where the code compares it with a number or does
  arithmetic on it (\<open>max(min_raise, amount)\<close>): a boolean is the integer 0 or 1, as in
  Python; every other value that is not a number raises TypeError there.
\<close>

fun py_number :: "json \<Rightarrow> int option" where
  "py_number (J_int k) = Some k"
| "py_number (J_bool b) = Some (if b then 1 else 0)"
| "py_number J_null = None"
| "py_number (J_str x) = None"
| "py_number J_compound = None"

section \<open>Cards\<close>

datatype suit = Spades | Hearts | Diamonds | Clubs

datatype rank = R2 | R3 | R4 | R5 | R6 | R7 | R8 | R9 | R10 | RJ | RQ | RK | RA

text \<open>\<open>RANK_VALUES\<close>.\<close>

fun RANK_VALUES :: "rank \<Rightarrow> int" where
  "RANK_VALUES R2 = 2"
| "RANK_VALUES R3 = 3"
| "RANK_VALUES R4 = 4"
| "RANK_VALUES R5 = 5"
| "RANK_VALUES R6 = 6"
| "RANK_VALUES R7 = 7"
| "RANK_VALUES R8 = 8"
| "RANK_VALUES R9 = 9"
| "RANK_VALUES R10 = 10"
| "RANK_VALUES RJ = 11"
| "RANK_VALUES RQ = 12"
| "RANK_VALUES RK = 13"
| "RANK_VALUES RA = 14"

text \<open>
  A \<open>Card\<close> holds its suit and rank; its \<open>value\<close> attribute is \<open>RANK_VALUES[rank]\<close>, set by
  the constructor and never written again.
\<close>

record card =
  suit :: suit
  rank :: rank

definition card_value :: "card \<Rightarrow> int" where
  "card_value c = RANK_VALUES (rank c)"

definition Card :: "suit \<Rightarrow> rank \<Rightarrow> card" where
  "Card s r = \<lparr>suit = s, rank = r\<rparr>"

section \<open>Hand evaluation\<close>

text \<open>
  \<open>get_hand_rank\<close>.  \<open>counts\<close> is the list of (value, number of cards of that value),
  descending by (number, value).  \<open>counts[0]\<close> raises IndexError on an empty hand and
  \<open>counts[1]\<close> raises it when all cards share one value; neither happens on five cards
  of a deck.
\<close>

definition value_counts :: "int list \<Rightarrow> (int \<times> nat) list" where
  "value_counts values =
     sorted_reverse (\<lambda>item. (snd item, fst item))
       (map (\<lambda>v. (v, count_list values v)) (remdups values))"

definition get_hand_rank :: "card list \<Rightarrow> error + (int \<times> card list)" where
  "get_hand_rank hand0 =
     (let hand = sorted_reverse card_value hand0;
          values = map card_value hand;
          suits = map suit hand;
          is_flush = (card (set suits) = 1);
          is_straight = ((card (set values) = 5 \<and> Max (set values) - Min (set values) = 4)
                         \<or> values = [14, 5, 4, 3, 2])
      in if is_straight \<and> is_flush
         then (if values = [14, 13, 12, 11, 10] then Inr (9, hand) else Inr (8, hand))
         else
           (case value_counts values of
              [] \<Rightarrow> Inl IndexError
            | c0 # rest \<Rightarrow>
                if snd c0 = 4
                then Inr (7, sorted_reverse (\<lambda>c. (card_value c \<noteq> fst c0, card_value c)) hand)
                else if snd c0 = 3 \<and> rest = [] then Inl IndexError
                else if snd c0 = 3 \<and> snd (hd rest) = 2 then Inr (6, hand)
                else if is_flush then Inr (5, hand)
                else if is_straight
                then (if values = [14, 5, 4, 3, 2]
                      then Inr (4, filter (\<lambda>c. card_value c \<noteq> 14) hand
                                   @ filter (\<lambda>c. card_value c = 14) hand)
                      else Inr (4, hand))
                else if snd c0 = 3
                then Inr (3, sorted_reverse (\<lambda>c. (card_value c \<noteq> fst c0, card_value c)) hand)
                else if snd c0 = 2 \<and> rest = [] then Inl IndexError
                else if snd c0 = 2 \<and> snd (hd rest) = 2
                then Inr (2, sorted_reverse
                               (\<lambda>c. (card_value c \<noteq> fst c0 \<and> card_value c \<noteq> fst (hd rest),
                                     card_value c)) hand)
                else if snd c0 = 2
                then Inr (1, sorted_reverse (\<lambda>c. (card_value c \<noteq> fst c0, card_value c)) hand)
                else Inr (0, hand)))"

text \<open>
  \<open>evaluate_hand\<close>: the loop over the 5-card combinations.  A dealt card can be \<open>None\<close>
  (the deck was empty); \<open>get_hand_rank\<close> then raises AttributeError at its first line,
  reading \<open>card.value\<close>.
\<close>

definition is_better :: "int \<times> card list \<Rightarrow> int \<times> card list \<Rightarrow> bool" where
  "is_better r best =
     (fst r > fst best \<or>
      (fst r = fst best \<and>
       sorted_reverse (\<lambda>v. v) (map card_value (snd r))
         > sorted_reverse (\<lambda>v. v) (map card_value (snd best))))"

fun evaluate_loop ::
  "int \<times> card list \<Rightarrow> card option list list \<Rightarrow> error + (int \<times> card list)" where
  "evaluate_loop best_hand_rank [] = Inr best_hand_rank"
| "evaluate_loop best_hand_rank (h # hs) =
     (if None \<in> set h then Inl AttributeError
      else (case get_hand_rank (map the h) of
              Inl e \<Rightarrow> Inl e
            | Inr r \<Rightarrow>
                evaluate_loop (if is_better r best_hand_rank then r else best_hand_rank) hs))"

definition evaluate_hand :: "card option list \<Rightarrow> error + (int \<times> card list)" where
  "evaluate_hand hand = evaluate_loop (-1, []) (combinations hand 5)"

section \<open>Players and the table\<close>

record player =
  name :: string
  hand :: "card option list"
  chips :: int
  bet :: int
  has_acted :: bool
  is_folded :: bool
  is_all_in :: bool
  is_cpu :: bool
  is_gemini :: bool
  show_hand :: bool

text \<open>\<open>Player.__init__(name, chips=1000, is_cpu, is_gemini)\<close>.\<close>

definition Player :: "string \<Rightarrow> bool \<Rightarrow> bool \<Rightarrow> player" where
  "Player n cpu gemini =
     \<lparr>name = n, hand = [], chips = 1000, bet = 0, has_acted = False, is_folded = False,
      is_all_in = False, is_cpu = cpu, is_gemini = gemini,
      show_hand = (\<not> cpu \<and> \<not> gemini)\<rparr>"

datatype stage = Pre_flop | Flop | Turn | River | Showdown

text \<open>
  The messages passed to \<open>log\<close> and \<open>print\<close>, one constructor per format string, holding
  the values the string interpolates.
\<close>

datatype log_entry =
    Log_cannot_start
  | Log_too_few_players
  | Log_small_blind string int
  | Log_big_blind string int
  | Log_your_turn
  | Log_thinking string
  | Log_gemini_action json "json option"
  | Log_gemini_error
  | Log_folds string
  | Log_checks string
  | Log_all_in_to_call string
  | Log_calls string int
  | Log_raises_all_in string int
  | Log_raises string int
  | Log_stage stage
  | Log_community_cards "card option list"
  | Log_round_end
  | Log_wins string int
  | Log_win_with "string list" int string
  | Log_round_over

text \<open>
  The fields of \<open>PokerGame\<close>.  \<open>deck\<close> is the deck's card list; \<open>console\<close> is what the
  process has printed (\<open>log\<close> prints every message it stores).  The lock is not a field:
  the model runs one thread, and whether that thread holds the lock is an argument of the
  functions that take it.
\<close>

record game =
  players :: "player list"
  deck :: "card list"
  community_cards :: "card option list"
  pot :: int
  current_bet :: int
  current_player_index :: int
  game_stage :: stage
  game_in_progress :: bool
  small_blind_index :: int
  big_blind_index :: int
  small_blind_amount :: int
  big_blind_amount :: int
  log_messages :: "log_entry list"
  human_action_needed :: bool
  console :: "log_entry list"

definition log :: "log_entry \<Rightarrow> game \<Rightarrow> game" where
  "log m s = s\<lparr>console := console s @ [m], log_messages := log_messages s @ [m]\<rparr>"

definition print :: "log_entry \<Rightarrow> game \<Rightarrow> game" where
  "print m s = s\<lparr>console := console s @ [m]\<rparr>"

text \<open>\<open>Deck.deal\<close>: pops the last card, or gives \<open>None\<close> on an empty deck.\<close>

definition deal :: "card list \<Rightarrow> card option \<times> card list" where
  "deal cards = (if cards = [] then (None, []) else (Some (last cards), butlast cards))"

fun deal_n :: "nat \<Rightarrow> card list \<Rightarrow> card option list \<times> card list" where
  "deal_n 0 cards = ([], cards)"
| "deal_n (Suc k) cards =
     (let (c, cards1) = deal cards; (cs, cards2) = deal_n k cards1 in (c # cs, cards2))"

section \<open>Applying an action\<close>

text \<open>
  \<open>handle_action\<close>.  The actor is \<open>players[current_player_index]\<close>; the other seats are
  told apart from it by position (the Python compares object identity, and every seat is
  an object of its own).  The action is compared with the four strings, whatever it is;
  the amount is read in the raise branch only.
\<close>

definition handle_action :: "json \<Rightarrow> json \<Rightarrow> game \<Rightarrow> error + game" where
  "handle_action action amount s =
     (case py_pos (players s) (current_player_index s) of
        None \<Rightarrow> Inl IndexError
      | Some i \<Rightarrow>
          let player = players s ! i;
              branch =
                (if action = J_str ''fold'' then
                   Inr (log (Log_folds (name player))
                          (s\<lparr>players := (players s)[i := player\<lparr>is_folded := True\<rparr>]\<rparr>))
                 else if action = J_str ''check'' then
                   Inr (log (Log_checks (name player)) s)
                 else if action = J_str ''call'' then
                   (let amount_to_call = current_bet s - bet player in
                    if amount_to_call \<ge> chips player then
                      Inr (log (Log_all_in_to_call (name player))
                             (s\<lparr>players := (players s)[i := player
                                  \<lparr>chips := 0, bet := bet player + chips player,
                                   is_all_in := True\<rparr>]\<rparr>))
                    else
                      Inr (log (Log_calls (name player) amount_to_call)
                             (s\<lparr>players := (players s)[i := player
                                  \<lparr>chips := chips player - amount_to_call,
                                   bet := bet player + amount_to_call\<rparr>]\<rparr>)))
                 else if action = J_str ''raise'' then
                   (case py_number amount of
                      None \<Rightarrow> Inl TypeError
                    | Some requested \<Rightarrow>
                        (let min_raise = (if current_bet s > 0 then current_bet s * 2
                                          else big_blind_amount s);
                             amount1 = max min_raise requested;
                             amount2 = min amount1 (chips player + bet player);
                             all_in = (amount2 \<ge> chips player + bet player);
                             amount3 = (if all_in then chips player + bet player else amount2);
                             player1 = (if all_in then player\<lparr>is_all_in := True\<rparr> else player);
                             amount_to_raise = amount3 - bet player;
                             player2 = player1\<lparr>chips := chips player1 - amount_to_raise,
                                               bet := amount3\<rparr>;
                             ps1 = (players s)[i := player2];
                             ps2 = map (\<lambda>(j, p). if j \<noteq> i \<and> \<not> is_folded p \<and> \<not> is_all_in p
                                                 then p\<lparr>has_acted := False\<rparr> else p)
                                       (enumerate 0 ps1)
                         in Inr (log (if all_in then Log_raises_all_in (name player) amount3
                                      else Log_raises (name player) amount3)
                                   (s\<lparr>players := ps2, current_bet := amount3\<rparr>))))
                 else Inr s)
          in case branch of
               Inl e \<Rightarrow> Inl e
             | Inr s1 \<Rightarrow>
                 Inr (s1\<lparr>players := (players s1)[i := (players s1 ! i)\<lparr>has_acted := True\<rparr>],
                         current_player_index :=
                           (current_player_index s + 1) mod int (length (players s))\<rparr>))"

section \<open>Settlement\<close>

definition hand_names :: "string list" where
  "hand_names = [''High Card'', ''One Pair'', ''Two Pair'', ''Three of a Kind'', ''Straight'',
                 ''Flush'', ''Full House'', ''Four of a Kind'', ''Straight Flush'',
                 ''Royal Flush'']"

text \<open>The sort and comparison key of \<open>end_round\<close>: the category and the tiebreak values.\<close>

definition rank_key :: "int \<times> card list \<Rightarrow> int \<times> int list" where
  "rank_key r = (fst r, map card_value (snd r))"

text \<open>
  The list comprehension of \<open>end_round\<close>: each non-folded seat (by position) with the rank
  of its hole cards and the community cards.
\<close>

fun evaluate_active ::
  "player list \<Rightarrow> card option list \<Rightarrow> nat list \<Rightarrow> error + (nat \<times> (int \<times> card list)) list" where
  "evaluate_active ps community [] = Inr []"
| "evaluate_active ps community (i # rest) =
     (case evaluate_hand (hand (ps ! i) @ community) of
        Inl e \<Rightarrow> Inl e
      | Inr r \<Rightarrow>
          (case evaluate_active ps community rest of
             Inl e \<Rightarrow> Inl e
           | Inr rs \<Rightarrow> Inr ((i, r) # rs)))"

text \<open>The loop \<open>for w_data in winners: w_data["player"].chips += winnings\<close>.\<close>

fun pay :: "int \<Rightarrow> nat list \<Rightarrow> player list \<Rightarrow> player list" where
  "pay winnings [] ps = ps"
| "pay winnings (w # ws) ps =
     pay winnings ws (ps[w := (ps ! w)\<lparr>chips := chips (ps ! w) + winnings\<rparr>])"

definition end_round :: "game \<Rightarrow> error + game" where
  "end_round s =
     (let pot1 = pot s + sum_list (map bet (players s));
          ps1 = map (\<lambda>p. p\<lparr>bet := 0\<rparr>) (players s);
          active_players = filter (\<lambda>i. \<not> is_folded (ps1 ! i)) [0..<length ps1];
          s1 = log Log_round_end (s\<lparr>pot := pot1, players := ps1\<rparr>);
          ps2 = map (\<lambda>p. p\<lparr>show_hand := True\<rparr>) ps1
      in if length active_players = 1 then
           (let w = hd active_players;
                winner = ps2 ! w;
                s2 = log (Log_wins (name winner) pot1)
                       (s1\<lparr>players := ps2[w := winner\<lparr>chips := chips winner + pot1\<rparr>]\<rparr>)
            in Inr (log Log_round_over (s2\<lparr>game_in_progress := False\<rparr>)))
         else
           (case evaluate_active ps2 (community_cards s) active_players of
              Inl e \<Rightarrow> Inl e
            | Inr data \<Rightarrow>
                (case sorted_reverse (\<lambda>d. rank_key (snd d)) data of
                   [] \<Rightarrow> Inl IndexError
                 | d0 # rest \<Rightarrow>
                     (let winner_data = d0 # rest;
                          best_rank_tuple = rank_key (snd d0);
                          winners = filter (\<lambda>d. rank_key (snd d) = best_rank_tuple) winner_data;
                          winnings = pot1 div int (length winners);
                          ps3 = pay winnings (map fst winners) ps2
                      in case py_index hand_names (fst (snd d0)) of
                           None \<Rightarrow> Inl IndexError
                         | Some win_hand_name \<Rightarrow>
                             (let s2 = log (Log_win_with (map (\<lambda>d. name (ps3 ! fst d)) winners)
                                              pot1 win_hand_name)
                                         (s1\<lparr>players := ps3\<rparr>)
                              in Inr (log Log_round_over (s2\<lparr>game_in_progress := False\<rparr>)))))))"

section \<open>Action providers\<close>

text \<open>
  \<open>get_cpu_action\<close>.  \<open>coin\<close> is the outcome of \<open>random.random() < 0.7\<close>.
\<close>

definition get_cpu_action :: "bool \<Rightarrow> player \<Rightarrow> game \<Rightarrow> error + game" where
  "get_cpu_action coin player s =
     (let amount_to_call = current_bet s - bet player;
          action = (if amount_to_call > 0
                    then (if coin \<or> amount_to_call \<ge> chips player then ''call'' else ''fold'')
                    else ''check'')
      in handle_action (J_str action) (J_int 0) s)"

text \<open>
  What the decision service does when asked: the request raises (\<open>Transport_failure\<close>),
  the text of the reply is not JSON between its first \<open>{\<close> and last \<open>}\<close>
  (\<open>Unparseable\<close>), or the reply is a JSON object, of which the code reads the fields
  \<open>action\<close> and \<open>amount\<close>; each can be missing and can hold any value.
\<close>

datatype gemini_response = Transport_failure | Unparseable | Reply "json option" "json option"

text \<open>
  \<open>get_gemini_poker_action\<close>.  Building the prompt reads \<open>c.suit\<close> of every card of the
  seat's hand and of the community cards, and \<open>to_dict\<close> of every seat reads the cards of
  a shown hand: a \<open>None\<close> among them raises AttributeError, outside the \<open>try\<close>.
\<close>

definition card_missing :: "player \<Rightarrow> game \<Rightarrow> bool" where
  "card_missing player s =
     (None \<in> set (hand player) \<or> None \<in> set (community_cards s)
      \<or> list_ex (\<lambda>p. show_hand p \<and> None \<in> set (hand p)) (players s))"

definition get_gemini_poker_action :: "gemini_response \<Rightarrow> player \<Rightarrow> game \<Rightarrow> error + game" where
  "get_gemini_poker_action response player s =
     (if card_missing player s then Inl AttributeError
      else
        (let s1 = log (Log_thinking (name player)) s in
         case response of
           Transport_failure \<Rightarrow>
             handle_action (J_str ''fold'') (J_int 0) (print Log_gemini_error s1)
         | Unparseable \<Rightarrow>
             handle_action (J_str ''fold'') (J_int 0) (print Log_gemini_error s1)
         | Reply a m \<Rightarrow>
             (let action = (case a of None \<Rightarrow> J_str ''fold'' | Some x \<Rightarrow> x);
                  amount = (case m of None \<Rightarrow> J_int 0 | Some x \<Rightarrow> x);
                  s2 = log (Log_gemini_action action
                              (if action = J_str ''raise'' then Some amount else None)) s1
              in case handle_action action amount s2 of
                   Inl e \<Rightarrow> handle_action (J_str ''fold'') (J_int 0) (print Log_gemini_error s2)
                 | Inr s3 \<Rightarrow> Inr s3)))"

section \<open>The turn loop\<close>

text \<open>
  What one pass of the loop of \<open>process_turn\<close> decides under the lock: end the hand, end
  the betting round, skip the seat at \<open>current_player_index\<close>, wait for the human, or ask
  the seat's provider (a seat that is neither human nor scripted is a Gemini seat).
\<close>

datatype turn =
  To_end_round | To_end_betting_round | No_seat | Skip_seat | Human_turn
  | Cpu_turn player | Gemini_turn player

definition active_players :: "game \<Rightarrow> player list" where
  "active_players s = filter (\<lambda>p. \<not> is_folded p) (players s)"

definition active_not_allin :: "game \<Rightarrow> player list" where
  "active_not_allin s = filter (\<lambda>p. \<not> is_all_in p) (active_players s)"

definition acted_players :: "game \<Rightarrow> player list" where
  "acted_players s = filter has_acted (active_not_allin s)"

definition round_closed :: "game \<Rightarrow> bool" where
  "round_closed s =
     (length (acted_players s) = length (active_not_allin s)
      \<and> card (set (map bet (active_not_allin s))) \<le> 1)"

definition next_turn :: "game \<Rightarrow> turn" where
  "next_turn s =
     (if length (active_players s) \<le> 1 then To_end_round
      else if round_closed s then To_end_betting_round
      else
        (case py_index (players s) (current_player_index s) of
           None \<Rightarrow> No_seat
         | Some current_player \<Rightarrow>
             if is_folded current_player \<or> is_all_in current_player then Skip_seat
             else if \<not> is_cpu current_player \<and> \<not> is_gemini current_player then Human_turn
             else if is_cpu current_player then Cpu_turn current_player
             else Gemini_turn current_player))"

text \<open>
  The first half of \<open>end_betting_round\<close>: the bets go to the pot, the stage advances and
  the community cards of the new stage are dealt.  \<open>next_stage\<close> has no entry for the
  showdown.
\<close>

fun next_stage :: "stage \<Rightarrow> stage option" where
  "next_stage Pre_flop = Some Flop"
| "next_stage Flop = Some Turn"
| "next_stage Turn = Some River"
| "next_stage River = Some Showdown"
| "next_stage Showdown = None"

definition collect_and_advance :: "game \<Rightarrow> error + game" where
  "collect_and_advance s =
     (let s1 = s\<lparr>pot := pot s + sum_list (map bet (players s)),
                 players := map (\<lambda>p. p\<lparr>bet := 0\<rparr>) (players s)\<rparr>
      in case next_stage (game_stage s1) of
           None \<Rightarrow> Inl KeyError
         | Some st \<Rightarrow>
             (let s2 = s1\<lparr>game_stage := st\<rparr> in
              if st = Flop then
                (let (cs, d) = deal_n 3 (deck s2)
                 in Inr (log (Log_stage Flop)
                           (s2\<lparr>deck := d, community_cards := community_cards s2 @ cs\<rparr>)))
              else if st = Turn then
                (let (c, d) = deal (deck s2)
                 in Inr (log (Log_stage Turn)
                           (s2\<lparr>deck := d, community_cards := community_cards s2 @ [c]\<rparr>)))
              else if st = River then
                (let (c, d) = deal (deck s2)
                 in Inr (log (Log_stage River)
                           (s2\<lparr>deck := d, community_cards := community_cards s2 @ [c]\<rparr>)))
              else Inr s2))"

text \<open>
  The loop at the head of \<open>process_betting_round\<close>, which steps over folded and all-in
  seats.  It has no exit when every seat is folded or all-in; \<open>None\<close> is a run that has
  not returned within the given number of passes.
\<close>

fun skip_inactive :: "nat \<Rightarrow> game \<Rightarrow> (error + game) option" where
  "skip_inactive 0 s = None"
| "skip_inactive (Suc n) s =
     (case py_index (players s) (current_player_index s) of
        None \<Rightarrow> Some (Inl IndexError)
      | Some p \<Rightarrow>
          if is_folded p \<or> is_all_in p
          then skip_inactive n
                 (s\<lparr>current_player_index :=
                      (current_player_index s + 1) mod int (length (players s))\<rparr>)
          else Some (Inr s))"

text \<open>
  The providers' inputs: the coin of the scripted seats and the reply of the decision
  service, one per pass of the turn loop.
\<close>

record env =
  coin :: "nat \<Rightarrow> bool"
  reply :: "nat \<Rightarrow> gemini_response"

text \<open>
  \<open>process_turn\<close>, \<open>end_betting_round\<close> and \<open>process_betting_round\<close> call one another.  The
  first argument bounds the passes of the loops; \<open>None\<close> is a run that has not returned
  within the bound.

  \<open>action_lock\<close> is a \<open>threading.Lock\<close>, which is not reentrant: a thread that enters
  \<open>with self.action_lock\<close> while it holds the lock waits for ever.  \<open>held\<close> says whether
  the calling thread holds the lock at the call.  \<open>process_turn\<close> calls \<open>end_round\<close> and
  \<open>end_betting_round\<close> inside its locked block, so \<open>end_betting_round\<close> calls
  \<open>process_betting_round\<close> with the lock held; the providers are asked after the block,
  and a pass of the loop starts with the lock as the call found it.
\<close>

fun process_turn :: "nat \<Rightarrow> env \<Rightarrow> bool \<Rightarrow> game \<Rightarrow> (error + game) option"
  and end_betting_round :: "nat \<Rightarrow> env \<Rightarrow> game \<Rightarrow> (error + game) option"
  and process_betting_round :: "nat \<Rightarrow> env \<Rightarrow> bool \<Rightarrow> game \<Rightarrow> (error + game) option" where
  "process_turn 0 e held s = None"
| "process_turn (Suc n) e held s =
     (if \<not> game_in_progress s then Some (Inr s)
      else if held then None
      else
        (case next_turn s of
           To_end_round \<Rightarrow> Some (end_round s)
         | To_end_betting_round \<Rightarrow> end_betting_round n e s
         | No_seat \<Rightarrow> Some (Inl IndexError)
         | Skip_seat \<Rightarrow>
             process_turn n e False
               (s\<lparr>current_player_index :=
                    (current_player_index s + 1) mod int (length (players s))\<rparr>)
         | Human_turn \<Rightarrow> Some (Inr ((log Log_your_turn s)\<lparr>human_action_needed := True\<rparr>))
         | Cpu_turn p \<Rightarrow>
             (case get_cpu_action (coin e n) p s of
                Inl err \<Rightarrow> Some (Inl err)
              | Inr s1 \<Rightarrow> process_turn n e False s1)
         | Gemini_turn p \<Rightarrow>
             (case get_gemini_poker_action (reply e n) p s of
                Inl err \<Rightarrow> Some (Inl err)
              | Inr s1 \<Rightarrow> process_turn n e False s1)))"
| "end_betting_round n e s =
     (case collect_and_advance s of
        Inl err \<Rightarrow> Some (Inl err)
      | Inr s1 \<Rightarrow>
          if game_stage s1 = Showdown then Some (end_round s1)
          else if None \<in> set (community_cards s1) then Some (Inl AttributeError)
          else process_betting_round n e True
                 (log (Log_community_cards (community_cards s1)) s1))"
| "process_betting_round n e held s =
     (if game_stage s \<noteq> Pre_flop then
        (if held then None
         else if players s = [] then Some (Inl ZeroDivisionError)
         else
           (case skip_inactive n
                   (s\<lparr>current_player_index :=
                        small_blind_index s mod int (length (players s))\<rparr>) of
              None \<Rightarrow> None
            | Some (Inl err) \<Rightarrow> Some (Inl err)
            | Some (Inr s1) \<Rightarrow>
                process_turn n e False
                  (s1\<lparr>current_bet := 0,
                      players := map (\<lambda>p. if \<not> is_folded p \<and> \<not> is_all_in p
                                           then p\<lparr>bet := 0, has_acted := False\<rparr>
                                           else p\<lparr>bet := 0\<rparr>) (players s1)\<rparr>)))
      else process_turn n e held s)"

section \<open>Starting a hand\<close>

text \<open>The loop of \<open>start_round\<close> that deals two cards to every seat and resets it.\<close>

fun deal_hands :: "player list \<Rightarrow> card list \<Rightarrow> player list \<times> card list" where
  "deal_hands [] d = ([], d)"
| "deal_hands (p # ps) d =
     (let (c1, d1) = deal d;
          (c2, d2) = deal d1;
          p1 = p\<lparr>hand := [c1, c2], bet := 0, has_acted := False, is_folded := False,
                 is_all_in := False, show_hand := (\<not> is_cpu p \<and> \<not> is_gemini p)\<rparr>;
          (ps1, d3) = deal_hands ps d2
      in (p1 # ps1, d3))"

text \<open>Posting one blind: the bet is capped at the stack, an emptied stack is all-in.\<close>

definition post_blind :: "int \<Rightarrow> player \<Rightarrow> player" where
  "post_blind amount p =
     (let b = min amount (chips p);
          p1 = p\<lparr>bet := b, chips := chips p - b\<rparr>
      in if chips p1 = 0 then p1\<lparr>is_all_in := True\<rparr> else p1)"

text \<open>
  The locked block of \<open>start_round\<close>, entered by a thread that does not hold the lock.
  \<open>fresh\<close> is the card list of the new shuffled \<open>Deck()\<close>.  The result says whether the
  hand started (the block returns early when fewer than two seats have chips).
\<close>

definition start_round_locked :: "card list \<Rightarrow> game \<Rightarrow> game \<times> bool" where
  "start_round_locked fresh s =
     (let s1 = s\<lparr>game_in_progress := True, deck := fresh, community_cards := [], pot := 0,
                 current_bet := 0, game_stage := Pre_flop, log_messages := []\<rparr>;
          s2 = s1\<lparr>players := filter (\<lambda>p. chips p > 0) (players s1)\<rparr>
      in if length (players s2) < 2
         then ((log Log_too_few_players s2)\<lparr>game_in_progress := False\<rparr>, False)
         else
           (let (ps3, d3) = deal_hands (players s2) (deck s2);
                n = int (length ps3);
                sbi = (small_blind_index s2 + 1) mod n;
                bbi = (sbi + 1) mod n;
                s3 = s2\<lparr>players := ps3, deck := d3, small_blind_index := sbi,
                        big_blind_index := bbi\<rparr>;
                s4 = log (Log_small_blind (name (ps3 ! nat sbi)) (small_blind_amount s3)) s3;
                ps4 = ps3[nat sbi := post_blind (small_blind_amount s3) (ps3 ! nat sbi)];
                s5 = log (Log_big_blind (name (ps4 ! nat bbi)) (big_blind_amount s3))
                       (s4\<lparr>players := ps4\<rparr>);
                ps5 = ps4[nat bbi := post_blind (big_blind_amount s3) (ps4 ! nat bbi)]
            in (s5\<lparr>players := ps5,
                    pot := pot s5 + (bet (ps5 ! nat sbi) + bet (ps5 ! nat bbi)),
                    current_bet := big_blind_amount s3,
                    current_player_index := (bbi + 1) mod n\<rparr>, True)))"

definition start_round :: "nat \<Rightarrow> env \<Rightarrow> card list \<Rightarrow> game \<Rightarrow> (error + game) option" where
  "start_round n e fresh s =
     (case start_round_locked fresh s of
        (s1, started) \<Rightarrow>
          if started then process_betting_round n e False s1 else Some (Inr s1))"

definition start_game :: "nat \<Rightarrow> env \<Rightarrow> card list \<Rightarrow> game \<Rightarrow> (error + game) option" where
  "start_game n e fresh s =
     (if length (players s) < 2 then Some (Inr (log Log_cannot_start s))
      else start_round n e fresh
             (s\<lparr>game_in_progress := True,
                small_blind_index :=
                  (small_blind_index s + 1) mod int (length (players s))\<rparr>))"

section \<open>The human seat's action\<close>

text \<open>
  \<open>handle_human_action\<close>, up to the start of the thread that runs \<open>process_turn\<close> (a
  new thread, which holds no lock); the boolean of the result says whether that thread was
  started.
\<close>

definition handle_human_action :: "json \<Rightarrow> json \<Rightarrow> game \<Rightarrow> error + (game \<times> bool)" where
  "handle_human_action action amount s =
     (if \<not> human_action_needed s then Inr (s, False)
      else
        (case handle_action action amount (s\<lparr>human_action_needed := False\<rparr>) of
           Inl e \<Rightarrow> Inl e
         | Inr s1 \<Rightarrow> Inr (s1, True)))"

text \<open>
  The route \<open>/player_action\<close>.  The global \<open>game\<close> is \<open>None\<close> until a game is started; the
  request's body is a JSON object, which can hold the fields \<open>action\<close>
  (\<open>data.get('action')\<close>, Python's \<open>None\<close> when missing) and \<open>amount\<close>
  (\<open>data.get('amount', 0)\<close>).
\<close>

datatype response = Success | Error_400

definition player_action_route ::
  "game option \<Rightarrow> json option \<Rightarrow> json option
     \<Rightarrow> error + (response \<times> game option \<times> bool)" where
  "player_action_route g action_field amount_field =
     (case g of
        None \<Rightarrow> Inr (Error_400, None, False)
      | Some s \<Rightarrow>
          if \<not> human_action_needed s then Inr (Error_400, Some s, False)
          else
            (let action = (case action_field of None \<Rightarrow> J_null | Some x \<Rightarrow> x);
                 amount = (case amount_field of None \<Rightarrow> J_int 0 | Some x \<Rightarrow> x)
             in case handle_human_action action amount s of
                  Inl e \<Rightarrow> Inl e
                | Inr (s1, started) \<Rightarrow> Inr (Success, Some s1, started)))"

text \<open>The quantity the conservation property is about.\<close>

definition total_chips :: "game \<Rightarrow> int" where
  "total_chips s = sum_list (map chips (players s)) + pot s + sum_list (map bet (players s))"

section \<open>Example tables\<close>

text \<open>The cards of \<open>Deck()\<close> in the order the constructor builds them, before the shuffle.\<close>

definition SUITS :: "suit list" where
  "SUITS = [Spades, Hearts, Diamonds, Clubs]"

definition RANKS :: "rank list" where
  "RANKS = [R2, R3, R4, R5, R6, R7, R8, R9, R10, RJ, RQ, RK, RA]"

definition full_deck :: "card list" where
  "full_deck = concat (map (\<lambda>s. map (\<lambda>r. Card s r) RANKS) SUITS)"

text \<open>The table \<open>PokerGame("You", cpu_players=1)\<close> builds, but for its shuffled deck.\<close>

definition new_table :: game where
  "new_table =
     \<lparr>players = [Player ''You'' False False, Player ''CPU 1'' True False],
      deck = full_deck, community_cards = [], pot = 0, current_bet = 0,
      current_player_index = 0, game_stage = Pre_flop, game_in_progress = False,
      small_blind_index = -1, big_blind_index = -1, small_blind_amount = 10,
      big_blind_amount = 20, log_messages = [], human_action_needed = False, console = []\<rparr>"

text \<open>The same table when the hand has started: the human seat has posted the small blind
  and is to act.\<close>

definition blinds_table :: game where
  "blinds_table = fst (start_round_locked full_deck new_table)"

text \<open>The table of the raise example: the actor holds 50 chips and faces a bet of 20.\<close>

definition short_stack_table :: game where
  "short_stack_table =
     new_table\<lparr>players := [(Player ''You'' False False)\<lparr>chips := 50\<rparr>,
                            (Player ''CPU 1'' True False)\<lparr>chips := 980, bet := 20\<rparr>],
               current_bet := 20, game_in_progress := True\<rparr>"

text \<open>A two-seat table whose second seat is a Gemini seat, after the blinds: the Gemini
  seat has posted the small blind and is to act.\<close>

definition gemini_table :: game where
  "gemini_table =
     fst (start_round_locked full_deck
            (new_table\<lparr>players := [Player ''You'' False False, Player ''Gemini 1'' False True],
                       game_in_progress := True, small_blind_index := 0\<rparr>))"

text \<open>A two-seat table whose second seat is down to 5 chips and is next to post the big
  blind.\<close>

definition short_blind_table :: game where
  "short_blind_table =
     new_table\<lparr>players := [Player ''You'' False False,
                            (Player ''CPU 1'' True False)\<lparr>chips := 5\<rparr>],
               small_blind_index := 1, big_blind_index := 0\<rparr>"




text \<open>A showdown table: the board is a royal flush in spades, both seats play the board;
  the pot holds 101 chips.\<close>

definition tie_table :: game where
  "tie_table =
     new_table\<lparr>players := [(Player ''You'' False False)
                               \<lparr>hand := [Some (Card Hearts R2), Some (Card Diamonds R3)],
                                chips := 500, has_acted := True\<rparr>,
                            (Player ''CPU 1'' True False)
                               \<lparr>hand := [Some (Card Clubs R2), Some (Card Hearts R3)],
                                chips := 399, has_acted := True\<rparr>],
               deck := [],
               community_cards := map Some [Card Spades RA, Card Spades RK, Card Spades RQ,
                                            Card Spades RJ, Card Spades R10],
               pot := 101, game_stage := Showdown, game_in_progress := True\<rparr>"

section \<open>The round-close condition in the words of the specification\<close>



text \<open>
  The current bet is the greatest bet among the seats that have not folded (of which
  there is at least one).
\<close>

definition current_bet_is_max :: "game \<Rightarrow> bool" where
  "current_bet_is_max s =
     (active_players s \<noteq> [] \<and> current_bet s = Max (set (map bet (active_players s))))"

section \<open>Facts about the helpers\<close>

lemma py_pos_less: "py_pos xs i = Some j \<Longrightarrow> j < length xs"
  by (auto simp: py_pos_def Let_def split: if_splits)

lemma set_insort_reverse: "set (insort_reverse f x ys) = insert x (set ys)"
  by (induction ys) auto

lemma set_sorted_reverse: "set (sorted_reverse f xs) = set xs"
  by (induction xs) (simp_all add: sorted_reverse_def set_insort_reverse)

lemma length_sorted_reverse: "length (sorted_reverse f xs) = length xs"
proof -
  have "length (insort_reverse f x ys) = Suc (length ys)" for x ys
    by (induction ys) auto
  then show ?thesis by (induction xs) (simp_all add: sorted_reverse_def)
qed

lemma distinct_map_insort_reverse:
  "distinct (map g (insort_reverse f x ys)) \<longleftrightarrow> g x \<notin> g ` set ys \<and> distinct (map g ys)"
  by (induction ys) (auto simp: set_insort_reverse)

lemma distinct_map_sorted_reverse:
  "distinct (map g (sorted_reverse f xs)) \<longleftrightarrow> distinct (map g xs)"
  by (induction xs)
    (simp_all add: sorted_reverse_def distinct_map_insort_reverse
      set_sorted_reverse [unfolded sorted_reverse_def])

lemma descending_insort_reverse:
  "sorted_wrt (\<lambda>a b. f b \<le> f a) ys \<Longrightarrow> sorted_wrt (\<lambda>a b. f b \<le> f a) (insort_reverse f x ys)"
  by (induction ys) (auto simp: set_insort_reverse)

lemma descending_sorted_reverse: "sorted_wrt (\<lambda>a b. f b \<le> f a) (sorted_reverse f xs)"
  by (induction xs) (simp_all add: sorted_reverse_def descending_insort_reverse)

lemma sorted_reverse_head_greatest:
  assumes "sorted_reverse f xs = d0 # rest" and "d \<in> set xs"
  shows "f d \<le> f d0"
proof -
  have "sorted_wrt (\<lambda>a b. f b \<le> f a) (d0 # rest)"
    using descending_sorted_reverse [of f xs] assms(1) by simp
  moreover have "d \<in> set (d0 # rest)"
    using set_sorted_reverse [of f xs] assms by simp
  ultimately show ?thesis by auto
qed

lemma sum_list_pointwise:
  fixes f :: "'a \<Rightarrow> int"
  assumes "length xs = length ys" and "\<forall>j<length ys. f (xs ! j) = f (ys ! j)"
  shows "sum_list (map f xs) = sum_list (map f ys)"
proof -
  have "map f xs = map f ys"
    using assms by (intro nth_equalityI) auto
  then show ?thesis by simp
qed

lemma filter_positions:
  "map ((!) xs) (filter (\<lambda>i. P (xs ! i)) [0..<length xs]) = filter P xs"
proof -
  have "filter P (map ((!) xs) [0..<length xs]) =
        map ((!) xs) (filter (P \<circ> (!) xs) [0..<length xs])"
    by (rule filter_map)
  then show ?thesis by (simp add: map_nth comp_def)
qed

lemma length_filter_positions:
  "length (filter (\<lambda>i. P (xs ! i)) [0..<length xs]) = length (filter P xs)"
  using arg_cong [OF filter_positions [of xs P], of length] by simp

section \<open>What an action changes\<close>

text \<open>With a seat at \<open>current_player_index\<close>, \<open>handle_action\<close> returns for every action
  (a raise needs an amount that counts as a number); it changes the chips, bet and folded
  flag of the actor only, and the actor's chips and bet keep their sum.\<close>

lemma handle_action_returns:
  assumes p: "py_pos (players s) (current_player_index s) = Some i"
    and num: "a = J_str ''raise'' \<longrightarrow> py_number m = Some x"
  shows "\<exists>t. handle_action a m s = Inr t
    \<and> length (players t) = length (players s)
    \<and> pot t = pot s
    \<and> (\<forall>j<length (players s). j \<noteq> i \<longrightarrow>
           bet (players t ! j) = bet (players s ! j)
           \<and> chips (players t ! j) = chips (players s ! j)
           \<and> is_folded (players t ! j) = is_folded (players s ! j))
    \<and> chips (players t ! i) + bet (players t ! i)
           = chips (players s ! i) + bet (players s ! i)
    \<and> is_folded (players t ! i) = (is_folded (players s ! i) \<or> a = J_str ''fold'')
    \<and> bet (players t ! i) =
           (if a = J_str ''call''
            then (if current_bet s - bet (players s ! i) \<ge> chips (players s ! i)
                  then bet (players s ! i) + chips (players s ! i) else current_bet s)
            else if a = J_str ''raise''
            then min (max (if current_bet s > 0 then current_bet s * 2
                           else big_blind_amount s) x)
                     (chips (players s ! i) + bet (players s ! i))
            else bet (players s ! i))
    \<and> current_bet t = (if a = J_str ''raise'' then bet (players t ! i) else current_bet s)"
proof -
  have i: "i < length (players s)" using p by (rule py_pos_less)
  consider (fold) "a = J_str ''fold''" | (check) "a = J_str ''check''"
    | (call) "a = J_str ''call''" | (raise) "a = J_str ''raise''"
    | (other) "a \<noteq> J_str ''fold''" "a \<noteq> J_str ''check''" "a \<noteq> J_str ''call''"
        "a \<noteq> J_str ''raise''"
    by blast
  then show ?thesis
  proof cases
    case fold
    then show ?thesis using p i
      by (simp add: handle_action_def Let_def log_def)
  next
    case check
    then show ?thesis using p i
      by (simp add: handle_action_def Let_def log_def)
  next
    case call
    then show ?thesis using p i
      by (simp add: handle_action_def Let_def log_def)
  next
    case raise
    then show ?thesis using p i num
      by (simp add: handle_action_def Let_def log_def nth_enumerate_eq min_def max_def)
  next
    case other
    then show ?thesis using p i
      by (simp add: handle_action_def Let_def log_def)
  qed
qed

lemma handle_action_seats:
  assumes p: "py_pos (players s) (current_player_index s) = Some i"
    and h: "handle_action a m s = Inr t"
    and num: "a = J_str ''raise'' \<longrightarrow> py_number m = Some x"
  shows "length (players t) = length (players s)"
    and "pot t = pot s"
    and "\<forall>j<length (players s). j \<noteq> i \<longrightarrow>
           bet (players t ! j) = bet (players s ! j)
           \<and> chips (players t ! j) = chips (players s ! j)
           \<and> is_folded (players t ! j) = is_folded (players s ! j)"
    and "chips (players t ! i) + bet (players t ! i)
           = chips (players s ! i) + bet (players s ! i)"
    and "is_folded (players t ! i) = (is_folded (players s ! i) \<or> a = J_str ''fold'')"
    and "bet (players t ! i) =
           (if a = J_str ''call''
            then (if current_bet s - bet (players s ! i) \<ge> chips (players s ! i)
                  then bet (players s ! i) + chips (players s ! i) else current_bet s)
            else if a = J_str ''raise''
            then min (max (if current_bet s > 0 then current_bet s * 2
                           else big_blind_amount s) x)
                     (chips (players s ! i) + bet (players s ! i))
            else bet (players s ! i))"
    and "current_bet t = (if a = J_str ''raise'' then bet (players t ! i) else current_bet s)"
  using handle_action_returns [OF p num] h by auto

text \<open>An applied raise had an amount that counts as a number.\<close>

lemma handle_action_number:
  assumes "handle_action a m s = Inr t"
  shows "\<exists>x. a = J_str ''raise'' \<longrightarrow> py_number m = Some x"
proof (cases "a = J_str ''raise''")
  case True
  then show ?thesis
    using assms by (auto simp: handle_action_def Let_def split: option.splits)
next
  case False
  then show ?thesis by simp
qed

section \<open>Conservation of chips\<close>

text \<open>Every action, and the sweep of the bets into the pot at the end of a betting round,
  keeps the sum of the stacks, the pot and the bets.\<close>

lemma handle_action_conserves:
  assumes "handle_action a m s = Inr t"
  shows "total_chips t = total_chips s"
proof -
  obtain i where p: "py_pos (players s) (current_player_index s) = Some i"
    using assms by (auto simp: handle_action_def split: option.splits)
  obtain x where num: "a = J_str ''raise'' \<longrightarrow> py_number m = Some x"
    using handle_action_number [OF assms] by blast
  note f = handle_action_seats [OF p assms num]
  have "chips (players t ! j) + bet (players t ! j) = chips (players s ! j) + bet (players s ! j)"
    if "j < length (players s)" for j
    using f(3,4) that by (cases "j = i") auto
  then have "sum_list (map (\<lambda>p. chips p + bet p) (players t))
           = sum_list (map (\<lambda>p. chips p + bet p) (players s))"
    using f(1) by (intro sum_list_pointwise) auto
  then show ?thesis
    using f(2) by (simp add: total_chips_def sum_list_addf)
qed

lemma collect_and_advance_conserves:
  assumes "collect_and_advance s = Inr t"
  shows "total_chips t = total_chips s"
proof -
  have "players t = map (\<lambda>p. p\<lparr>bet := 0\<rparr>) (players s)
        \<and> pot t = pot s + sum_list (map bet (players s))"
    using assms
    by (auto simp: collect_and_advance_def Let_def log_def split_beta
        split: option.splits if_splits)
  then show ?thesis
    by (simp add: total_chips_def comp_def)
qed

text \<open>C1 (the defect).  On a new two-seat table the blinds leave the stacks (1000 + 1000
  become 990 + 980), stay in the two seats' bets (10 + 20) and are added to the pot as well
  (30): stacks, pot and bets sum to 2030 after the blinds, 2000 before.\<close>

theorem blinds_counted_twice:
  "total_chips new_table = 2000
   \<and> total_chips (fst (start_round_locked full_deck new_table)) = 2030
   \<and> pot (fst (start_round_locked full_deck new_table)) = 30
   \<and> map bet (players (fst (start_round_locked full_deck new_table))) = [10, 20]
   \<and> map chips (players (fst (start_round_locked full_deck new_table))) = [990, 980]"
  by code_simp

section \<open>Tiebreak order\<close>

text \<open>C2 (the defect).  The full house 2,2,2,5,5 is returned with the pair's value in
  front of the trips' value, and four nines with a king are returned kicker first.\<close>

theorem full_house_pair_first:
  "map_sum id rank_key
     (get_hand_rank [Card Spades R2, Card Hearts R2, Card Diamonds R2,
                     Card Spades R5, Card Hearts R5]) = Inr (6, [5, 5, 2, 2, 2])
   \<and> map_sum id rank_key
       (get_hand_rank [Card Spades R9, Card Hearts R9, Card Diamonds R9,
                       Card Clubs R9, Card Spades RK]) = Inr (7, [13, 9, 9, 9, 9])"
  by code_simp

section \<open>The wheel\<close>

text \<open>\<open>get_hand_rank\<close> itself ranks every wheel of mixed suits as a straight with the five
  in front and the ace last.\<close>

lemma wheel_values:
  assumes "length hand0 = 5" and "set (map card_value hand0) = {14, 5, 4, 3, 2}"
  shows "map card_value (sorted_reverse card_value hand0) = [14, 5, 4, 3, 2]"
proof -
  let ?vs = "map card_value (sorted_reverse card_value hand0)"
  have len: "length ?vs = 5" using assms(1) by (simp add: length_sorted_reverse)
  have st: "set ?vs = {14, 5, 4, 3, 2}"
    using assms(2) by (simp add: set_sorted_reverse)
  have "card (set ?vs) = length ?vs" unfolding st len by simp
  then have d: "distinct ?vs" by (rule card_distinct)
  have "sorted_wrt (\<lambda>a b. b \<le> a) ?vs"
    using descending_sorted_reverse [of card_value hand0] by (simp add: sorted_wrt_map)
  then have "sorted_wrt (\<lambda>a b. a \<le> b) (rev ?vs)" by (simp add: sorted_wrt_rev)
  then have s: "sorted (rev ?vs)" by simp
  have "rev ?vs = [2, 3, 4, 5, 14]"
  proof (rule sorted_distinct_set_unique)
    show "sorted (rev ?vs)" by (rule s)
    show "distinct (rev ?vs)" using d by simp
    show "sorted [2, 3, 4, 5, 14 :: int]" by simp
    show "distinct [2, 3, 4, 5, 14 :: int]" by simp
    show "set (rev ?vs) = set [2, 3, 4, 5, 14]" using st by auto
  qed
  then have "rev (rev ?vs) = rev [2, 3, 4, 5, 14]" by (rule arg_cong)
  then show ?thesis by simp
qed

lemma wheel_counts: "value_counts [14, 5, 4, 3, 2] = [(14, 1), (5, 1), (4, 1), (3, 1), (2, 1)]"
  by code_simp

lemma wheel_ranked_five_high:
  assumes "length hand0 = 5" and "set (map card_value hand0) = {14, 5, 4, 3, 2}"
    and "card (set (map suit hand0)) \<noteq> 1"
  shows "map_sum id rank_key (get_hand_rank hand0) = Inr (4, [5, 4, 3, 2, 14])"
proof -
  let ?hand = "sorted_reverse card_value hand0"
  have v: "map card_value ?hand = [14, 5, 4, 3, 2]"
    using assms(1,2) by (rule wheel_values)
  have fl: "card (set (map suit ?hand)) \<noteq> 1"
    using assms(3) by (simp add: set_sorted_reverse)
  have k: "map card_value (filter (\<lambda>c. card_value c \<noteq> 14) ?hand
                            @ filter (\<lambda>c. card_value c = 14) ?hand) = [5, 4, 3, 2, 14]"
  proof -
    have "map card_value (filter (\<lambda>c. card_value c \<noteq> 14) ?hand)
            = filter (\<lambda>x. x \<noteq> 14) (map card_value ?hand)"
      by (simp add: filter_map comp_def)
    moreover have "map card_value (filter (\<lambda>c. card_value c = 14) ?hand)
            = filter (\<lambda>x. x = 14) (map card_value ?hand)"
      by (simp add: filter_map comp_def)
    ultimately show ?thesis unfolding map_append v by simp
  qed
  have "get_hand_rank hand0 =
          Inr (4, filter (\<lambda>c. card_value c \<noteq> 14) ?hand @ filter (\<lambda>c. card_value c = 14) ?hand)"
    unfolding get_hand_rank_def Let_def v wheel_counts using fl by simp
  then show ?thesis using k by (simp add: rank_key_def)
qed

text \<open>C3 (the defect).  Of the seven cards A 2 3 4 5 6 K, \<open>evaluate_hand\<close> keeps the wheel
  and not the six-high straight: it compares the tiebreak values sorted again, where the
  wheel's ace counts 14.\<close>

theorem wheel_beats_six_high:
  "map_sum id rank_key
     (evaluate_hand (map Some [Card Spades RA, Card Hearts R2, Card Diamonds R3,
                               Card Clubs R4, Card Spades R5, Card Hearts R6,
                               Card Diamonds RK])) = Inr (4, [5, 4, 3, 2, 14])
   \<and> is_better
       (4, [Card Spades R5, Card Clubs R4, Card Diamonds R3, Card Hearts R2, Card Spades RA])
       (4, [Card Hearts R6, Card Spades R5, Card Clubs R4, Card Diamonds R3, Card Hearts R2])"
  by code_simp

section \<open>The all-in action\<close>

text \<open>C4 (the defect).  \<open>handle_action\<close> has no branch for \<open>all-in\<close>: the actor, with 990
  chips and a bet of 10, keeps both and is not marked all-in; the action only counts as
  its turn.  The same happens to a Gemini seat whose reply is the \<open>all-in\<close> that the
  prompt offers.\<close>

theorem all_in_wagers_nothing:
  "map_sum id (\<lambda>s. (chips (players s ! 0), bet (players s ! 0), is_all_in (players s ! 0),
                     has_acted (players s ! 0), current_player_index s))
     (handle_action (J_str ''all-in'') (J_int 0) blinds_table) = Inr (990, 10, False, True, 1)
   \<and> map_sum id (\<lambda>s. (chips (players s ! 1), bet (players s ! 1), is_all_in (players s ! 1),
                       has_acted (players s ! 1), current_player_index s))
       (get_gemini_poker_action (Reply (Some (J_str ''all-in'')) None)
          (players gemini_table ! 1) gemini_table) = Inr (990, 10, False, True, 0)"
  by code_simp

section \<open>Raises\<close>

text \<open>C5.  A raise is applied at the requested amount clamped from below by the minimum
  raise (twice the current bet, or the big blind when nothing is bet) and then from above
  by the actor's chips plus bet: that is the actor's new bet and the new current bet, the
  chips pay the difference, and when the amount is the whole stack the actor is marked
  all-in and the action is logged as an all-in raise.\<close>

theorem raise_clamped:
  assumes "py_pos (players s) (current_player_index s) = Some i"
  shows "\<exists>s'. handle_action (J_str ''raise'') (J_int requested) s = Inr s'
     \<and> bet (players s' ! i) =
         min (max (if current_bet s > 0 then current_bet s * 2 else big_blind_amount s) requested)
             (chips (players s ! i) + bet (players s ! i))
     \<and> chips (players s' ! i) = chips (players s ! i) + bet (players s ! i) - bet (players s' ! i)
     \<and> current_bet s' = bet (players s' ! i)
     \<and> is_all_in (players s' ! i) =
         (is_all_in (players s ! i)
          \<or> bet (players s' ! i) = chips (players s ! i) + bet (players s ! i))
     \<and> (bet (players s' ! i) = chips (players s ! i) + bet (players s ! i) \<longrightarrow>
          last (log_messages s') = Log_raises_all_in (name (players s ! i)) (bet (players s' ! i)))"
proof -
  have i: "i < length (players s)" using assms by (rule py_pos_less)
  show ?thesis
    using i assms
    by (auto simp: handle_action_def Let_def log_def nth_enumerate_eq min_def max_def)
qed

text \<open>The example of the claim: 50 chips, no bet, current bet 20, raise to 1000.\<close>

theorem raise_clamped_witness:
  "\<exists>s'. handle_action (J_str ''raise'') (J_int 1000) short_stack_table = Inr s'
     \<and> bet (players s' ! 0) = 50 \<and> chips (players s' ! 0) = 0 \<and> current_bet s' = 50
     \<and> is_all_in (players s' ! 0)
     \<and> last (log_messages s') = Log_raises_all_in ''You'' 50"
proof -
  have p: "py_pos (players short_stack_table) (current_player_index short_stack_table) = Some 0"
    by code_simp
  have c: "chips (players short_stack_table ! 0) = 50" "bet (players short_stack_table ! 0) = 0"
     "current_bet short_stack_table = 20" "name (players short_stack_table ! 0) = ''You''"
    by code_simp+
  show ?thesis
    using raise_clamped [OF p, of 1000] by (auto simp: c)
qed

section \<open>The human seat's submission\<close>

text \<open>C8.  The route answers with the error and leaves the table as it is when no game
  exists or \<open>human_action_needed\<close> is false; when the flag is true it answers with success
  and the table is the one \<open>handle_action\<close> gives from the table with the flag cleared
  (one thread: no other submission runs between the test of the flag and the action).  A
  request without the field \<open>action\<close> submits Python's \<open>None\<close>, one without the field
  \<open>amount\<close> the amount 0.\<close>

theorem human_action_gate:
  "player_action_route None action_field amount_field = Inr (Error_400, None, False)
   \<and> player_action_route (Some s) action_field amount_field =
       (if human_action_needed s
        then map_sum id (\<lambda>s1. (Success, Some s1, True))
               (handle_action (case action_field of None \<Rightarrow> J_null | Some x \<Rightarrow> x)
                  (case amount_field of None \<Rightarrow> J_int 0 | Some x \<Rightarrow> x)
                  (s\<lparr>human_action_needed := False\<rparr>))
        else Inr (Error_400, Some s, False))"
  by (simp add: player_action_route_def handle_human_action_def Let_def split: sum.splits)

section \<open>The Gemini seat\<close>




section \<open>The current bet\<close>

lemma deal_hands_props:
  "deal_hands ps d = (ps', d') \<Longrightarrow>
     length ps' = length ps \<and> (\<forall>p\<in>set ps'. bet p = 0 \<and> \<not> is_folded p)
     \<and> map chips ps' = map chips ps"
proof (induction ps arbitrary: d ps' d')
  case Nil
  then show ?case by simp
next
  case (Cons p ps)
  then show ?case
    by (auto simp: Let_def split: prod.splits)
qed

lemma post_blind_simps [simp]:
  "bet (post_blind a p) = min a (chips p)"
  "is_folded (post_blind a p) = is_folded p"
  "chips (post_blind a p) = chips p - min a (chips p)"
  by (simp_all add: post_blind_def Let_def)

lemma start_round_current_bet:
  assumes "start_round_locked fresh s = (s', True)"
  shows "current_bet s' = big_blind_amount s"
  using assms
  by (auto simp: start_round_locked_def Let_def log_def split: if_splits prod.splits)

lemma start_round_players:
  assumes "start_round_locked fresh s = (s', True)"
  shows "\<exists>ps3 d3 i j. deal_hands (filter (\<lambda>p. chips p > 0) (players s)) fresh = (ps3, d3)
     \<and> i < length ps3 \<and> j < length ps3 \<and> nat (big_blind_index s') = j
     \<and> players s' = ps3[i := post_blind (small_blind_amount s) (ps3 ! i),
                         j := post_blind (big_blind_amount s)
                                (ps3[i := post_blind (small_blind_amount s) (ps3 ! i)] ! j)]"
proof -
  obtain ps3 d3 where d: "deal_hands (filter (\<lambda>p. chips p > 0) (players s)) fresh = (ps3, d3)"
    by (cases "deal_hands (filter (\<lambda>p. chips p > 0) (players s)) fresh") auto
  have len: "length ps3 = length (filter (\<lambda>p. chips p > 0) (players s))"
    using deal_hands_props [OF d] by simp
  have ge: "2 \<le> length ps3"
    using assms len by (auto simp: start_round_locked_def Let_def split: if_splits)
  define n where "n = int (length ps3)"
  have npos: "0 < n" using ge unfolding n_def by linarith
  define sbi where "sbi = (small_blind_index s + 1) mod n"
  define bbi where "bbi = (sbi + 1) mod n"
  have r: "0 \<le> sbi" "sbi < n" "0 \<le> bbi" "bbi < n"
    using npos by (simp_all add: sbi_def bbi_def)
  have i: "nat sbi < length ps3" "nat bbi < length ps3"
    using r by (simp_all add: n_def nat_less_iff)
  have "players s' = ps3[nat sbi := post_blind (small_blind_amount s) (ps3 ! nat sbi),
                         nat bbi := post_blind (big_blind_amount s)
                                (ps3[nat sbi := post_blind (small_blind_amount s) (ps3 ! nat sbi)] ! nat bbi)]"
    and "big_blind_index s' = bbi"
    using assms d ge
    by (auto simp: start_round_locked_def Let_def log_def sbi_def bbi_def n_def split: if_splits)
  then show ?thesis using d i by blast
qed

lemma Max_bets_eq:
  fixes bs :: "int list"
  assumes "b \<in> set bs" and "\<forall>x\<in>set bs. x \<le> b"
  shows "Max (set bs) = b"
  using assms by (intro Max_eqI) auto

lemma start_round_max_bet:
  assumes st: "start_round_locked fresh s = (s', True)"
    and blinds: "0 \<le> small_blind_amount s" "small_blind_amount s \<le> big_blind_amount s"
    and full: "bet (players s' ! nat (big_blind_index s')) = big_blind_amount s"
  shows "active_players s' = players s'
     \<and> current_bet s' = Max (set (map bet (active_players s')))"
proof -
  obtain ps3 d3 i j where d: "deal_hands (filter (\<lambda>p. chips p > 0) (players s)) fresh = (ps3, d3)"
    and i: "i < length ps3" and j: "j < length ps3" and bb: "nat (big_blind_index s') = j"
    and ps: "players s' = ps3[i := post_blind (small_blind_amount s) (ps3 ! i),
                         j := post_blind (big_blind_amount s)
                                (ps3[i := post_blind (small_blind_amount s) (ps3 ! i)] ! j)]"
    using start_round_players [OF st] by blast
  have p3: "\<forall>p\<in>set ps3. bet p = 0 \<and> \<not> is_folded p \<and> chips p > 0"
  proof
    fix p assume p: "p \<in> set ps3"
    have "chips p \<in> set (map chips ps3)" using p by simp
    then have "chips p \<in> set (map chips (filter (\<lambda>p. chips p > 0) (players s)))"
      using deal_hands_props [OF d] by simp
    then have "chips p > 0" by auto
    then show "bet p = 0 \<and> \<not> is_folded p \<and> chips p > 0"
      using deal_hands_props [OF d] p by simp
  qed
  define sb where "sb = post_blind (small_blind_amount s) (ps3 ! i)"
  define ps4 where "ps4 = ps3[i := sb]"
  define bb' where "bb' = post_blind (big_blind_amount s) (ps4 ! j)"
  have ps': "players s' = ps4[j := bb']"
    using ps by (simp add: sb_def ps4_def bb'_def)
  have m: "ps3 ! i \<in> set ps3" using i by simp
  have sb_ok: "\<not> is_folded sb \<and> bet sb \<le> big_blind_amount s"
    using p3 m blinds by (auto simp: sb_def min_def)
  have p4: "\<forall>p\<in>set ps4. \<not> is_folded p \<and> bet p \<le> big_blind_amount s"
  proof
    fix p assume "p \<in> set ps4"
    then have "p = sb \<or> p \<in> set ps3"
      using set_update_subset_insert [of ps3 i sb] by (auto simp: ps4_def)
    then show "\<not> is_folded p \<and> bet p \<le> big_blind_amount s"
      using sb_ok p3 blinds by auto
  qed
  have j4: "j < length ps4" using j by (simp add: ps4_def)
  have m4: "ps4 ! j \<in> set ps4" using j4 by simp
  have bb_ok: "\<not> is_folded bb' \<and> bet bb' \<le> big_blind_amount s"
    using p4 m4 by (auto simp: bb'_def)
  have p5: "\<forall>p\<in>set (players s'). \<not> is_folded p \<and> bet p \<le> big_blind_amount s"
  proof
    fix p assume "p \<in> set (players s')"
    then have "p = bb' \<or> p \<in> set ps4"
      using set_update_subset_insert [of ps4 j bb'] by (auto simp: ps')
    then show "\<not> is_folded p \<and> bet p \<le> big_blind_amount s"
      using bb_ok p4 by auto
  qed
  have act: "active_players s' = players s'"
    using p5 by (simp add: active_players_def)
  have "players s' ! j \<in> set (players s')"
    using j4 by (intro nth_mem) (simp add: ps')
  then have "big_blind_amount s \<in> set (map bet (players s'))"
    using full bb by force
  then have "Max (set (map bet (players s'))) = big_blind_amount s"
    using p5 by (intro Max_bets_eq) auto
  then show ?thesis
    using act start_round_current_bet [OF st] by simp
qed

lemma Max_map_iff:
  fixes f :: "'a \<Rightarrow> int"
  shows "xs \<noteq> [] \<and> c = Max (set (map f xs))
         \<longleftrightarrow> (\<exists>x\<in>set xs. f x = c) \<and> (\<forall>x\<in>set xs. f x \<le> c)"
proof (cases "xs = []")
  case True
  then show ?thesis by simp
next
  case False
  then have ne: "f ` set xs \<noteq> {}" by simp
  have "Max (f ` set xs) = c \<longleftrightarrow> c \<in> f ` set xs \<and> (\<forall>a\<in>f ` set xs. a \<le> c)"
    using False by (intro Max_eq_iff) simp_all
  then show ?thesis using False by auto
qed

lemma filter_ex_nth:
  "(\<exists>x\<in>set (filter P xs). Q x) \<longleftrightarrow> (\<exists>j<length xs. P (xs ! j) \<and> Q (xs ! j))"
  by (auto simp: in_set_conv_nth)

lemma filter_all_nth:
  "(\<forall>x\<in>set (filter P xs). Q x) \<longleftrightarrow> (\<forall>j<length xs. P (xs ! j) \<longrightarrow> Q (xs ! j))"
  by (auto simp: in_set_conv_nth)

lemma current_bet_is_max_iff:
  "current_bet_is_max s \<longleftrightarrow>
     (\<exists>j<length (players s). \<not> is_folded (players s ! j) \<and> bet (players s ! j) = current_bet s)
     \<and> (\<forall>j<length (players s). \<not> is_folded (players s ! j) \<longrightarrow>
            bet (players s ! j) \<le> current_bet s)"
  unfolding current_bet_is_max_def Max_map_iff active_players_def filter_ex_nth filter_all_nth ..

lemma handle_action_keeps_max:
  assumes inv: "current_bet_is_max s"
    and p: "py_pos (players s) (current_player_index s) = Some i"
    and h: "handle_action a m s = Inr t"
    and fold: "a = J_str ''fold'' \<longrightarrow>
         (\<exists>j<length (players s). j \<noteq> i \<and> \<not> is_folded (players s ! j)
              \<and> bet (players s ! j) = current_bet s)"
    and call: "a = J_str ''call'' \<longrightarrow> 0 \<le> chips (players s ! i)"
    and raise: "a = J_str ''raise'' \<longrightarrow>
         \<not> is_folded (players s ! i)
         \<and> current_bet s \<le> chips (players s ! i) + bet (players s ! i)
         \<and> (0 < current_bet s \<or> current_bet s \<le> big_blind_amount s)"
  shows "current_bet_is_max t"
proof -
  have i: "i < length (players s)" using p by (rule py_pos_less)
  obtain x where num: "a = J_str ''raise'' \<longrightarrow> py_number m = Some x"
    using handle_action_number [OF h] by blast
  note f = handle_action_seats [OF p h num]
  from inv obtain j0 where j0: "j0 < length (players s)" "\<not> is_folded (players s ! j0)"
      "bet (players s ! j0) = current_bet s"
    and ub: "\<forall>j<length (players s). \<not> is_folded (players s ! j) \<longrightarrow>
            bet (players s ! j) \<le> current_bet s"
    unfolding current_bet_is_max_iff by blast
  have oth: "bet (players t ! j) = bet (players s ! j)"
      "is_folded (players t ! j) = is_folded (players s ! j)"
    if "j < length (players s)" "j \<noteq> i" for j
    using f(3) that by simp_all
  consider (fold) "a = J_str ''fold''" | (call) "a = J_str ''call''" | (raise) "a = J_str ''raise''"
    | (other) "a \<noteq> J_str ''fold''" "a \<noteq> J_str ''call''" "a \<noteq> J_str ''raise''"
    by blast
  then have "(\<exists>j<length (players s). \<not> is_folded (players t ! j)
                 \<and> bet (players t ! j) = current_bet t)
     \<and> (\<forall>j<length (players s). \<not> is_folded (players t ! j) \<longrightarrow>
            bet (players t ! j) \<le> current_bet t)"
  proof cases
    case fold
    then obtain j where j: "j < length (players s)" "j \<noteq> i" "\<not> is_folded (players s ! j)"
        "bet (players s ! j) = current_bet s"
      using assms(4) by blast
    have c: "current_bet t = current_bet s" using f(7) fold by simp
    have 1: "\<exists>j<length (players s). \<not> is_folded (players t ! j)
                 \<and> bet (players t ! j) = current_bet t"
      using j oth [OF j(1,2)] c by auto
    have 2: "bet (players t ! k) \<le> current_bet t"
      if "k < length (players s)" "\<not> is_folded (players t ! k)" for k
    proof (cases "k = i")
      case True
      then show ?thesis using that f(5) fold by simp
    next
      case False
      then show ?thesis using that oth [OF that(1) False] ub c by simp
    qed
    show ?thesis using 1 2 by blast
  next
    case call
    have c: "current_bet t = current_bet s" using f(7) call by simp
    have fi: "is_folded (players t ! i) = is_folded (players s ! i)" using f(5) call by simp
    have bi: "bet (players t ! i) =
          (if current_bet s - bet (players s ! i) \<ge> chips (players s ! i)
           then bet (players s ! i) + chips (players s ! i) else current_bet s)"
      using f(6) call by simp
    have ch: "0 \<le> chips (players s ! i)" using assms(5) call by simp
    have 1: "\<exists>j<length (players s). \<not> is_folded (players t ! j)
                 \<and> bet (players t ! j) = current_bet t"
    proof (cases "j0 = i")
      case True
      then have "bet (players t ! i) = current_bet s"
        using bi j0 ch by (auto split: if_splits)
      then show ?thesis using True j0 fi c by auto
    next
      case False
      then show ?thesis using j0 oth [OF j0(1) False] c by auto
    qed
    have 2: "bet (players t ! k) \<le> current_bet t"
      if "k < length (players s)" "\<not> is_folded (players t ! k)" for k
    proof (cases "k = i")
      case True
      then have "bet (players s ! i) \<le> current_bet s" using that fi ub by simp
      then show ?thesis using True bi c by (auto split: if_splits)
    next
      case False
      then show ?thesis using that oth [OF that(1) False] ub c by simp
    qed
    show ?thesis using 1 2 by blast
  next
    case raise
    have c: "current_bet t = bet (players t ! i)" using f(7) raise by simp
    have fi: "\<not> is_folded (players t ! i)" using f(5) raise assms(6) by simp
    have bi: "bet (players t ! i) =
          min (max (if current_bet s > 0 then current_bet s * 2 else big_blind_amount s) x)
              (chips (players s ! i) + bet (players s ! i))"
      using f(6) raise by simp
    have ge: "current_bet s \<le> bet (players t ! i)"
      using bi assms(6) raise by (auto simp: min_def max_def split: if_splits)
    have 1: "\<exists>j<length (players s). \<not> is_folded (players t ! j)
                 \<and> bet (players t ! j) = current_bet t"
      using i fi c by auto
    have 2: "bet (players t ! k) \<le> current_bet t"
      if "k < length (players s)" "\<not> is_folded (players t ! k)" for k
    proof (cases "k = i")
      case True
      then show ?thesis using c by simp
    next
      case False
      then have "bet (players t ! k) \<le> current_bet s"
        using that oth [OF that(1) False] ub by simp
      then show ?thesis using ge c by simp
    qed
    show ?thesis using 1 2 by blast
  next
    case other
    have c: "current_bet t = current_bet s" using f(7) other by simp
    have fi: "is_folded (players t ! i) = is_folded (players s ! i)" using f(5) other by simp
    have bi: "bet (players t ! i) = bet (players s ! i)" using f(6) other by simp
    have same: "bet (players t ! k) = bet (players s ! k)
                \<and> is_folded (players t ! k) = is_folded (players s ! k)"
      if "k < length (players s)" for k
      using that oth [OF that] fi bi by (cases "k = i") auto
    show ?thesis using j0 ub same c by auto
  qed
  then show ?thesis
    unfolding current_bet_is_max_iff [of t] f(1) .
qed

lemma start_round_is_max:
  assumes st: "start_round_locked fresh s = (s', True)"
    and blinds: "0 \<le> small_blind_amount s" "small_blind_amount s \<le> big_blind_amount s"
    and full: "bet (players s' ! nat (big_blind_index s')) = big_blind_amount s"
  shows "current_bet_is_max s'"
proof -
  obtain ps3 d3 i j where "j < length ps3"
    and "players s' = ps3[i := post_blind (small_blind_amount s) (ps3 ! i),
                         j := post_blind (big_blind_amount s)
                                (ps3[i := post_blind (small_blind_amount s) (ps3 ! i)] ! j)]"
    using start_round_players [OF st] by blast
  then have "length (players s') = length ps3" "0 < length ps3" by auto
  then have "players s' \<noteq> []" by auto
  then show ?thesis
    using start_round_max_bet [OF st blinds full] by (simp add: current_bet_is_max_def)
qed

text \<open>C6 as stated fails right after the blinds when the big-blind seat cannot cover the
  blind: \<open>current_bet\<close> is 20, the bets of the two seats (neither has folded) are 10
  and 5.\<close>

theorem short_big_blind_counterexample:
  "current_bet (fst (start_round_locked full_deck short_blind_table)) = 20
   \<and> map bet (active_players (fst (start_round_locked full_deck short_blind_table))) = [10, 5]
   \<and> \<not> current_bet_is_max (fst (start_round_locked full_deck short_blind_table))"
  by code_simp

text \<open>C6, amended.  Posting the blinds sets \<open>current_bet\<close> to the big blind amount, which is
  the greatest bet among the non-folded seats when the big-blind seat posted the blind in
  full (and the small blind is neither negative nor the larger one).  An applied raise sets
  \<open>current_bet\<close> to the raiser's new bet and no other action changes it.  An action keeps
  \<open>current_bet\<close> the greatest bet among the non-folded seats when: a fold leaves another
  non-folded seat whose bet is \<open>current_bet\<close>; a caller's stack is not negative; a raiser
  has not folded and its chips and bet together reach \<open>current_bet\<close> (which is positive
  or at most the big blind amount).\<close>

theorem current_bet_max_kept:
  "(start_round_locked fresh s0 = (s1, True) \<longrightarrow>
      current_bet s1 = big_blind_amount s0
      \<and> (0 \<le> small_blind_amount s0 \<and> small_blind_amount s0 \<le> big_blind_amount s0
          \<and> bet (players s1 ! nat (big_blind_index s1)) = big_blind_amount s0 \<longrightarrow>
            current_bet_is_max s1))
   \<and> (py_pos (players s) (current_player_index s) = Some i
        \<and> handle_action a m s = Inr t \<longrightarrow>
        current_bet t = (if a = J_str ''raise'' then bet (players t ! i) else current_bet s)
        \<and> (current_bet_is_max s
            \<and> (a = J_str ''fold'' \<longrightarrow>
                 (\<exists>j<length (players s). j \<noteq> i \<and> \<not> is_folded (players s ! j)
                      \<and> bet (players s ! j) = current_bet s))
            \<and> (a = J_str ''call'' \<longrightarrow> 0 \<le> chips (players s ! i))
            \<and> (a = J_str ''raise'' \<longrightarrow>
                 \<not> is_folded (players s ! i)
                 \<and> current_bet s \<le> chips (players s ! i) + bet (players s ! i)
                 \<and> (0 < current_bet s \<or> current_bet s \<le> big_blind_amount s))
            \<longrightarrow> current_bet_is_max t))"
proof -
  have 1: "current_bet s1 = big_blind_amount s0"
    if "start_round_locked fresh s0 = (s1, True)"
    using that by (rule start_round_current_bet)
  have 2: "current_bet_is_max s1"
    if "start_round_locked fresh s0 = (s1, True)" "0 \<le> small_blind_amount s0"
      "small_blind_amount s0 \<le> big_blind_amount s0"
      "bet (players s1 ! nat (big_blind_index s1)) = big_blind_amount s0"
    using that by (rule start_round_is_max)
  have 3: "current_bet t = (if a = J_str ''raise'' then bet (players t ! i) else current_bet s)"
    if q: "py_pos (players s) (current_player_index s) = Some i"
      and h: "handle_action a m s = Inr t"
  proof -
    obtain x where "a = J_str ''raise'' \<longrightarrow> py_number m = Some x"
      using handle_action_number [OF h] by blast
    then show ?thesis by (rule handle_action_seats(7) [OF q h])
  qed
  have 4: "current_bet_is_max t"
    if "py_pos (players s) (current_player_index s) = Some i" "handle_action a m s = Inr t"
      "current_bet_is_max s"
      "a = J_str ''fold'' \<longrightarrow>
         (\<exists>j<length (players s). j \<noteq> i \<and> \<not> is_folded (players s ! j)
              \<and> bet (players s ! j) = current_bet s)"
      "a = J_str ''call'' \<longrightarrow> 0 \<le> chips (players s ! i)"
      "a = J_str ''raise'' \<longrightarrow>
         \<not> is_folded (players s ! i)
         \<and> current_bet s \<le> chips (players s ! i) + bet (players s ! i)
         \<and> (0 < current_bet s \<or> current_bet s \<le> big_blind_amount s)"
    using handle_action_keeps_max [OF that(3) that(1) that(2) that(4) that(5) that(6)] .
  show ?thesis
    using 1 2 3 4 by blast
qed

text \<open>On the new two-seat table the blinds give a current bet of 20, the greatest bet;
  a fold, a call and a raise to 100 of the seat to act keep it the greatest bet.\<close>

theorem current_bet_max_kept_witness:
  "current_bet blinds_table = 20 \<and> current_bet_is_max blinds_table
   \<and> (\<exists>t. handle_action (J_str ''fold'') (J_int 0) blinds_table = Inr t
           \<and> current_bet t = 20 \<and> current_bet_is_max t)
   \<and> (\<exists>t. handle_action (J_str ''call'') (J_int 0) blinds_table = Inr t
           \<and> current_bet t = 20 \<and> current_bet_is_max t)
   \<and> (\<exists>t. handle_action (J_str ''raise'') (J_int 100) blinds_table = Inr t
           \<and> current_bet t = bet (players t ! 0) \<and> current_bet_is_max t)"
proof -
  have "snd (start_round_locked full_deck new_table) = True" by code_simp
  then have st: "start_round_locked full_deck new_table = (blinds_table, True)"
    by (simp add: blinds_table_def prod_eq_iff)
  have v: "big_blind_amount new_table = 20" "small_blind_amount new_table = 10"
      "bet (players blinds_table ! nat (big_blind_index blinds_table)) = 20"
      "py_pos (players blinds_table) (current_player_index blinds_table) = Some 0"
      "current_bet blinds_table = 20" "big_blind_amount blinds_table = 20"
      "chips (players blinds_table ! 0) = 990" "bet (players blinds_table ! 0) = 10"
      "\<not> is_folded (players blinds_table ! 0)"
    by code_simp+
  have o: "1 < length (players blinds_table) \<and> (1::nat) \<noteq> 0
           \<and> \<not> is_folded (players blinds_table ! 1)
           \<and> bet (players blinds_table ! 1) = current_bet blinds_table"
    by code_simp
  then have ex: "\<exists>j<length (players blinds_table). j \<noteq> 0
                   \<and> \<not> is_folded (players blinds_table ! j)
                   \<and> bet (players blinds_table ! j) = current_bet blinds_table"
    by blast
  have c: "\<not> isl (handle_action (J_str ''fold'') (J_int 0) blinds_table)"
      "\<not> isl (handle_action (J_str ''call'') (J_int 0) blinds_table)"
      "\<not> isl (handle_action (J_str ''raise'') (J_int 100) blinds_table)"
    by code_simp+
  obtain t0 where t0: "handle_action (J_str ''fold'') (J_int 0) blinds_table = Inr t0"
    using c(1) by (cases "handle_action (J_str ''fold'') (J_int 0) blinds_table") auto
  obtain t1 where t1: "handle_action (J_str ''call'') (J_int 0) blinds_table = Inr t1"
    using c(2) by (cases "handle_action (J_str ''call'') (J_int 0) blinds_table") auto
  obtain t2 where t2: "handle_action (J_str ''raise'') (J_int 100) blinds_table = Inr t2"
    using c(3) by (cases "handle_action (J_str ''raise'') (J_int 100) blinds_table") auto
  have b: "current_bet_is_max blinds_table"
    using current_bet_max_kept
            [of full_deck new_table blinds_table blinds_table 0 "J_str ''fold''" "J_int 0" t0] st v
    by simp
  have u0: "current_bet t0 = 20 \<and> current_bet_is_max t0"
    using current_bet_max_kept
            [of full_deck new_table blinds_table blinds_table 0 "J_str ''fold''" "J_int 0" t0] st t0 v b ex
    by simp
  have u1: "current_bet t1 = 20 \<and> current_bet_is_max t1"
    using current_bet_max_kept
            [of full_deck new_table blinds_table blinds_table 0 "J_str ''call''" "J_int 0" t1] st t1 v b
    by simp
  have u2: "current_bet t2 = bet (players t2 ! 0) \<and> current_bet_is_max t2"
    using current_bet_max_kept
            [of full_deck new_table blinds_table blinds_table 0 "J_str ''raise''" "J_int 100" t2] st t2 v b
    by simp
  show ?thesis using b u0 u1 u2 t0 t1 t2 v by simp
qed

section \<open>Closing a betting round\<close>









section \<open>Splitting the pot\<close>

lemma evaluate_active_result:
  "evaluate_active ps c is = Inr data \<Longrightarrow>
     map fst data = is
     \<and> (\<forall>d\<in>set data. evaluate_hand (hand (ps ! fst d) @ c) = Inr (snd d))"
  by (induction "is" arbitrary: data) (auto split: sum.splits)

lemma pay_nth:
  "distinct ws \<Longrightarrow> \<forall>w\<in>set ws. w < length ps \<Longrightarrow>
     length (pay x ws ps) = length ps
     \<and> (\<forall>i<length ps. pay x ws ps ! i
            = (if i \<in> set ws then (ps ! i)\<lparr>chips := chips (ps ! i) + x\<rparr> else ps ! i))"
proof (induction ws arbitrary: ps)
  case Nil
  then show ?case by simp
next
  case (Cons w ws)
  let ?ps = "ps[w := (ps ! w)\<lparr>chips := chips (ps ! w) + x\<rparr>]"
  have "distinct ws" "\<forall>v\<in>set ws. v < length ?ps" using Cons.prems by auto
  from Cons.IH [OF this] show ?case
    using Cons.prems by (auto simp: nth_list_update)
qed

lemma start_round_forgets_pot:
  "start_round_locked fresh (s\<lparr>pot := x\<rparr>) = start_round_locked fresh s"
  by (simp add: start_round_locked_def)

lemma length_value_counts: "length (value_counts vs) = length (remdups vs)"
  by (simp add: value_counts_def length_sorted_reverse)

lemma value_counts_single:
  assumes "value_counts vs = [c0]"
  shows "snd c0 = length vs"
proof -
  have "length (remdups vs) = 1"
    using assms length_value_counts [of vs] by simp
  then obtain v where r: "remdups vs = [v]"
    by (cases "remdups vs") auto
  have "set vs = {v}" using r by (metis set_remdups list.simps(15) empty_set)
  then have all: "\<forall>x\<in>set vs. x = v" by simp
  have cnt: "count_list vs v = length vs"
    using all by (induction vs) auto
  have "set (value_counts vs) = set (map (\<lambda>v. (v, count_list vs v)) (remdups vs))"
    by (simp add: value_counts_def set_sorted_reverse)
  then have "c0 = (v, count_list vs v)" using assms r by simp
  then show ?thesis using cnt by simp
qed

lemma value_counts_nonempty: "vs \<noteq> [] \<Longrightarrow> value_counts vs \<noteq> []"
  using length_value_counts [of vs] by (cases "remdups vs") auto

lemma get_hand_rank_five:
  assumes "length h = 5"
  shows "\<exists>r. get_hand_rank h = Inr r \<and> 0 \<le> fst r \<and> fst r \<le> 9"
proof -
  let ?hand = "sorted_reverse card_value h"
  let ?vs = "map card_value ?hand"
  have len: "length ?vs = 5" using assms by (simp add: length_sorted_reverse)
  then have "?vs \<noteq> []" by auto
  then obtain c0 rest where vc: "value_counts ?vs = c0 # rest"
    using value_counts_nonempty [of ?vs] by (cases "value_counts ?vs") auto
  have single: "rest = [] \<Longrightarrow> snd c0 = 5"
    using value_counts_single [of ?vs c0] vc len by simp
  show ?thesis
    unfolding get_hand_rank_def Let_def vc using single
    by (auto simp del: set_map)
qed


lemma combinations_members:
  "c \<in> set (combinations xs k) \<Longrightarrow> length c = k \<and> set c \<subseteq> set xs"
  by (induction xs k arbitrary: c rule: combinations.induct) (auto, blast+)

lemma evaluate_loop_returns:
  assumes "\<forall>h\<in>set hs. length h = 5 \<and> None \<notin> set h" and "-1 \<le> fst best" and "fst best \<le> 9"
  shows "\<exists>r. evaluate_loop best hs = Inr r \<and> -1 \<le> fst r \<and> fst r \<le> 9"
  using assms
proof (induction hs arbitrary: best)
  case Nil
  then show ?case by simp
next
  case (Cons h hs)
  have "length (map the h) = 5" using Cons.prems(1) by simp
  then obtain r where r: "get_hand_rank (map the h) = Inr r" "0 \<le> fst r" "fst r \<le> 9"
    using get_hand_rank_five by blast
  let ?b = "if is_better r best then r else best"
  have b: "-1 \<le> fst ?b" "fst ?b \<le> 9" using r Cons.prems(2,3) by auto
  have "\<forall>h\<in>set hs. length h = 5 \<and> None \<notin> set h" using Cons.prems(1) by simp
  from Cons.IH [OF this b] show ?case
    using r(1) Cons.prems(1) by simp
qed

lemma evaluate_hand_returns:
  assumes "None \<notin> set cards"
  shows "\<exists>r. evaluate_hand cards = Inr r \<and> -1 \<le> fst r \<and> fst r \<le> 9"
proof -
  have "\<forall>h\<in>set (combinations cards 5). length h = 5 \<and> None \<notin> set h"
    using combinations_members [of _ cards 5] assms by blast
  then show ?thesis
    unfolding evaluate_hand_def by (intro evaluate_loop_returns) simp_all
qed

lemma evaluate_active_returns:
  assumes "\<forall>i\<in>set is. None \<notin> set (hand (ps ! i) @ c)"
  shows "\<exists>data. evaluate_active ps c is = Inr data
           \<and> (\<forall>d\<in>set data. -1 \<le> fst (snd d) \<and> fst (snd d) \<le> 9)"
  using assms
proof (induction "is")
  case Nil
  then show ?case by simp
next
  case (Cons i rest)
  obtain r where r: "evaluate_hand (hand (ps ! i) @ c) = Inr r" "-1 \<le> fst r" "fst r \<le> 9"
    using evaluate_hand_returns [of "hand (ps ! i) @ c"] Cons.prems by auto
  obtain data where d: "evaluate_active ps c rest = Inr data"
      "\<forall>d\<in>set data. -1 \<le> fst (snd d) \<and> fst (snd d) \<le> 9"
    using Cons.IH Cons.prems by auto
  show ?case using r d by simp
qed

lemma hand_names_index:
  assumes "-1 \<le> c" and "c \<le> 9"
  shows "\<exists>n. py_index hand_names c = Some n"
  using assms by (simp add: py_index_def py_pos_def hand_names_def Let_def)

lemma end_round_returns:
  assumes two: "2 \<le> length (active_players s)"
    and board: "None \<notin> set (community_cards s)"
    and hands: "\<forall>i<length (players s). \<not> is_folded (players s ! i) \<longrightarrow>
                  None \<notin> set (hand (players s ! i))"
  shows "\<exists>s'. end_round s = Inr s'"
proof -
  define ps1 where "ps1 = map (\<lambda>p. p\<lparr>bet := 0\<rparr>) (players s)"
  define ps2 where "ps2 = map (\<lambda>p. p\<lparr>show_hand := True\<rparr>) ps1"
  define act where "act = filter (\<lambda>i. \<not> is_folded (ps1 ! i)) [0..<length ps1]"
  have act_eq: "act = filter (\<lambda>i. \<not> is_folded (players s ! i)) [0..<length (players s)]"
    unfolding act_def ps1_def by (rule filter_cong) auto
  have la: "length act = length (active_players s)"
    unfolding act_eq active_players_def by (rule length_filter_positions)
  then have ne1: "length act \<noteq> 1" using two by simp
  have "\<forall>i\<in>set act. None \<notin> set (hand (ps2 ! i) @ community_cards s)"
    using hands board by (auto simp: act_eq ps2_def ps1_def)
  then obtain data where data: "evaluate_active ps2 (community_cards s) act = Inr data"
      and cat: "\<forall>d\<in>set data. -1 \<le> fst (snd d) \<and> fst (snd d) \<le> 9"
    using evaluate_active_returns by blast
  have "length data = length act"
    using evaluate_active_result [OF data] by (metis length_map)
  then have "length (sorted_reverse (\<lambda>d. rank_key (snd d)) data) \<noteq> 0"
    using la two unfolding length_sorted_reverse by linarith
  then obtain d0 rest where srt: "sorted_reverse (\<lambda>d. rank_key (snd d)) data = d0 # rest"
    by (cases "sorted_reverse (\<lambda>d. rank_key (snd d)) data") auto
  have "d0 \<in> set data"
    using set_sorted_reverse [of "\<lambda>d. rank_key (snd d)" data] srt by auto
  then obtain nm where nm: "py_index hand_names (fst (snd d0)) = Some nm"
    using cat hand_names_index by blast
  show ?thesis
    unfolding end_round_def Let_def
    using ne1 data srt nm
    by (simp add: act_def ps1_def ps2_def)
qed

lemma showdown_split_result:
  assumes er: "end_round s = Inr s'" and two: "2 \<le> length (active_players s)"
  shows "\<exists>key.
     (\<forall>i. i < length (players s) \<and> \<not> is_folded (players s ! i) \<longrightarrow>
        (\<exists>r. evaluate_hand (hand (players s ! i) @ community_cards s) = Inr r
             \<and> key i = rank_key r))
     \<and> {i. i < length (players s) \<and> \<not> is_folded (players s ! i)
            \<and> (\<forall>j. j < length (players s) \<and> \<not> is_folded (players s ! j) \<longrightarrow> key j \<le> key i)}
         \<noteq> {}
     \<and> pot s' = pot s + sum_list (map bet (players s))
     \<and> length (players s') = length (players s)
     \<and> (\<forall>i<length (players s).
          chips (players s' ! i) =
            chips (players s ! i) +
            (if \<not> is_folded (players s ! i)
                \<and> (\<forall>j. j < length (players s) \<and> \<not> is_folded (players s ! j) \<longrightarrow> key j \<le> key i)
             then (pot s + sum_list (map bet (players s)))
                    div int (card {i. i < length (players s) \<and> \<not> is_folded (players s ! i)
                       \<and> (\<forall>j. j < length (players s) \<and> \<not> is_folded (players s ! j)
                              \<longrightarrow> key j \<le> key i)})
             else 0))
     \<and> start_round_locked fresh s' = start_round_locked fresh (s'\<lparr>pot := 0\<rparr>)"
proof -
  define n where "n = length (players s)"
  define pot1 where "pot1 = pot s + sum_list (map bet (players s))"
  define ps1 where "ps1 = map (\<lambda>p. p\<lparr>bet := 0\<rparr>) (players s)"
  define ps2 where "ps2 = map (\<lambda>p. p\<lparr>show_hand := True\<rparr>) ps1"
  define act where "act = filter (\<lambda>i. \<not> is_folded (ps1 ! i)) [0..<length ps1]"
  have act_eq: "act = filter (\<lambda>i. \<not> is_folded (players s ! i)) [0..<n]"
    unfolding act_def ps1_def n_def by (rule filter_cong) auto
  have "length act = length (active_players s)"
    unfolding act_eq n_def active_players_def by (rule length_filter_positions)
  then have ne1: "length act \<noteq> 1" using two by simp
  have set_act: "set act = {i. i < n \<and> \<not> is_folded (players s ! i)}"
    by (auto simp: act_eq)
  have dist_act: "distinct act" by (simp add: act_eq)
  have hands: "hand (ps2 ! i) = hand (players s ! i)"
      "chips (ps2 ! i) = chips (players s ! i)" if "i < n" for i
    using that by (simp_all add: ps2_def ps1_def n_def)
  have len2: "length ps2 = n" by (simp add: ps2_def ps1_def n_def)
  from er ne1 obtain data d0 rest where
    data: "evaluate_active ps2 (community_cards s) act = Inr data"
    and srt: "sorted_reverse (\<lambda>d. rank_key (snd d)) data = d0 # rest"
    and res: "players s' =
        pay (pot1 div int (length (filter (\<lambda>d. rank_key (snd d) = rank_key (snd d0)) (d0 # rest))))
          (map fst (filter (\<lambda>d. rank_key (snd d) = rank_key (snd d0)) (d0 # rest))) ps2"
      "pot s' = pot1"
    unfolding end_round_def
    by (auto simp: Let_def log_def act_def ps1_def ps2_def pot1_def
        split: sum.splits list.splits option.splits if_splits)
  define winners where "winners = filter (\<lambda>d. rank_key (snd d) = rank_key (snd d0)) (d0 # rest)"
  have fst_data: "map fst data = act"
    and ev: "\<forall>d\<in>set data. evaluate_hand (hand (ps2 ! fst d) @ community_cards s) = Inr (snd d)"
    using evaluate_active_result [OF data] by auto
  define key where "key = (\<lambda>i. case evaluate_hand (hand (players s ! i) @ community_cards s) of
                                 Inr r \<Rightarrow> rank_key r | Inl e \<Rightarrow> (0, []))"
  have key_data: "key (fst d) = rank_key (snd d)" if "d \<in> set data" for d
  proof -
    have "fst d \<in> set act" using that fst_data by force
    then have lt: "fst d < n" using set_act by simp
    have "evaluate_hand (hand (ps2 ! fst d) @ community_cards s) = Inr (snd d)"
      using ev that by blast
    then show ?thesis using hands(1) [OF lt] by (simp add: key_def)
  qed
  have k1: "\<exists>r. evaluate_hand (hand (players s ! i) @ community_cards s) = Inr r \<and> key i = rank_key r"
    if "i < n \<and> \<not> is_folded (players s ! i)" for i
  proof -
    have "i \<in> set (map fst data)" using that set_act fst_data by simp
    then obtain d where d: "d \<in> set data" "fst d = i" by auto
    have "evaluate_hand (hand (ps2 ! fst d) @ community_cards s) = Inr (snd d)"
      using ev d(1) by blast
    then show ?thesis using hands(1) [of i] that d(2) by (simp add: key_def)
  qed
  have set_sorted: "set (d0 # rest) = set data"
    using set_sorted_reverse [of "\<lambda>d. rank_key (snd d)" data] srt by simp
  have d0: "d0 \<in> set data" using set_sorted by auto
  have best: "key j \<le> key (fst d0)" if j: "j \<in> set act" for j
  proof -
    have "j \<in> set (map fst data)" using j fst_data by simp
    then obtain d where d: "d \<in> set data" "fst d = j" by auto
    have "rank_key (snd d) \<le> rank_key (snd d0)"
      using sorted_reverse_head_greatest [OF srt d(1)] .
    then show ?thesis using key_data [OF d(1)] key_data [OF d0] d(2) by simp
  qed
  define W where "W = {i. i < n \<and> \<not> is_folded (players s ! i)
            \<and> (\<forall>j. j < n \<and> \<not> is_folded (players s ! j) \<longrightarrow> key j \<le> key i)}"
  have W_set: "set (map fst winners) = W"
  proof
    show "set (map fst winners) \<subseteq> W"
    proof
      fix i assume "i \<in> set (map fst winners)"
      then obtain d where "d \<in> set winners" "fst d = i" by auto
      then have d: "d \<in> set data" "fst d = i" "rank_key (snd d) = rank_key (snd d0)"
        using set_sorted unfolding winners_def by auto
      have ia: "i \<in> set act" using d fst_data by force
      have "key i = key (fst d0)" using key_data [OF d(1)] key_data [OF d0] d by simp
      then show "i \<in> W" using ia best set_act by (auto simp: W_def)
    qed
  next
    show "W \<subseteq> set (map fst winners)"
    proof
      fix i assume i: "i \<in> W"
      then have ia: "i \<in> set act" using set_act by (simp add: W_def)
      then have "i \<in> set (map fst data)" using fst_data by simp
      then obtain d where d: "d \<in> set data" "fst d = i" by auto
      have "fst d0 \<in> set act" using d0 fst_data by force
      then have "key (fst d0) \<le> key i" using i set_act by (auto simp: W_def)
      moreover have "key i \<le> key (fst d0)" using best [OF ia] .
      ultimately have "key i = key (fst d0)" by simp
      then have "rank_key (snd d) = rank_key (snd d0)"
        using key_data [OF d(1)] key_data [OF d0] d(2) by simp
      then have "d \<in> set winners" using d(1) set_sorted by (auto simp: winners_def)
      then show "i \<in> set (map fst winners)" using d(2) by force
    qed
  qed
  have "distinct (map fst (d0 # rest))"
    using distinct_map_sorted_reverse [of fst "\<lambda>d. rank_key (snd d)" data] srt fst_data dist_act
    by simp
  then have dist_w: "distinct (map fst winners)"
    unfolding winners_def by (rule distinct_map_filter)
  have card_W: "card W = length winners"
    using distinct_card [OF dist_w] W_set by simp
  have "fst d0 \<in> W"
    using W_set d0 set_sorted by (force simp: winners_def)
  then have W_ne: "W \<noteq> {}" by auto
  have res': "players s' = pay (pot1 div int (length winners)) (map fst winners) ps2"
    using res(1) unfolding winners_def .
  have W_img: "fst ` set winners = W" using W_set by simp
  have in_range: "\<forall>w\<in>set (map fst winners). w < length ps2"
    using W_set len2 by (auto simp: W_def)
  have pay: "length (players s') = n"
    "\<forall>i<n. players s' ! i =
        (if i \<in> W then (ps2 ! i)\<lparr>chips := chips (ps2 ! i) + pot1 div int (card W)\<rparr> else ps2 ! i)"
    using pay_nth [OF dist_w in_range, of "pot1 div int (length winners)"]
    by (simp_all add: res' W_img card_W [symmetric] len2)
  have chips: "\<forall>i<n. chips (players s' ! i) =
      chips (players s ! i) + (if i \<in> W then pot1 div int (card W) else 0)"
    using pay(2) hands(2) by simp
  have "(\<forall>i. i < n \<and> \<not> is_folded (players s ! i) \<longrightarrow>
        (\<exists>r. evaluate_hand (hand (players s ! i) @ community_cards s) = Inr r
             \<and> key i = rank_key r))
     \<and> W \<noteq> {} \<and> pot s' = pot1 \<and> length (players s') = n
     \<and> (\<forall>i<n. chips (players s' ! i) =
            chips (players s ! i) + (if i \<in> W then pot1 div int (card W) else 0))"
    using k1 W_ne res(2) pay(1) chips by blast
  then show ?thesis
    unfolding W_def n_def pot1_def
    by (intro exI [of _ key]) (simp add: W_def n_def start_round_forgets_pot)
qed

text \<open>C10.  \<open>end_round\<close> settles every hand between two or more non-folded seats whose
  cards, like the board's, are all dealt: every such seat's hand has a rank, and the
  winners are the non-folded seats whose rank key (the category, then the tiebreak values)
  is greatest.  With \<open>n\<close> winners each winner's chips grow by the pot (the bets swept in)
  divided by \<open>n\<close>, rounded down, no other seat's chips change, and the pot field keeps
  its amount: the remainder goes to no stack.  The next hand starts as it would from an
  empty pot.\<close>

theorem showdown_split:
  assumes two: "2 \<le> length (active_players s)"
    and board: "None \<notin> set (community_cards s)"
    and hands: "\<forall>i<length (players s). \<not> is_folded (players s ! i) \<longrightarrow>
                  None \<notin> set (hand (players s ! i))"
  shows "\<exists>s'. end_round s = Inr s' \<and> (\<exists>key.
        (\<forall>i. i < length (players s) \<and> \<not> is_folded (players s ! i) \<longrightarrow>
           (\<exists>r. evaluate_hand (hand (players s ! i) @ community_cards s) = Inr r
                \<and> key i = rank_key r))
        \<and> {i. i < length (players s) \<and> \<not> is_folded (players s ! i)
               \<and> (\<forall>j. j < length (players s) \<and> \<not> is_folded (players s ! j) \<longrightarrow> key j \<le> key i)}
            \<noteq> {}
        \<and> pot s' = pot s + sum_list (map bet (players s))
        \<and> length (players s') = length (players s)
        \<and> (\<forall>i<length (players s).
             chips (players s' ! i) =
               chips (players s ! i) +
               (if \<not> is_folded (players s ! i)
                   \<and> (\<forall>j. j < length (players s) \<and> \<not> is_folded (players s ! j) \<longrightarrow> key j \<le> key i)
                then (pot s + sum_list (map bet (players s)))
                       div int (card {i. i < length (players s) \<and> \<not> is_folded (players s ! i)
                          \<and> (\<forall>j. j < length (players s) \<and> \<not> is_folded (players s ! j)
                                 \<longrightarrow> key j \<le> key i)})
                else 0))
        \<and> start_round_locked fresh s' = start_round_locked fresh (s'\<lparr>pot := 0\<rparr>))"
proof -
  obtain s' where er: "end_round s = Inr s'"
    using end_round_returns [OF two board hands] by blast
  show ?thesis
    by (intro exI [of _ s'] conjI) (rule er, rule showdown_split_result [OF er two])
qed

text \<open>The example: a pot of 101 and two seats that tie pay 50 each.\<close>

theorem showdown_split_witness:
  "\<exists>s'. end_round tie_table = Inr s'
     \<and> chips (players s' ! 0) = 550 \<and> chips (players s' ! 1) = 449 \<and> pot s' = 101"
proof -
  have two: "2 \<le> length (active_players tie_table)" by code_simp
  have board: "None \<notin> set (community_cards tie_table)" by code_simp
  have v: "length (players tie_table) = 2"
      "\<not> is_folded (players tie_table ! 0)" "\<not> is_folded (players tie_table ! 1)"
      "chips (players tie_table ! 0) = 500" "chips (players tie_table ! 1) = 399"
      "pot tie_table + sum_list (map bet (players tie_table)) = 101"
    by code_simp+
  have h: "None \<notin> set (hand (players tie_table ! 0))"
      "None \<notin> set (hand (players tie_table ! 1))"
    by code_simp+
  have hands: "\<forall>i<length (players tie_table). \<not> is_folded (players tie_table ! i) \<longrightarrow>
                  None \<notin> set (hand (players tie_table ! i))"
    using h v(1) by (auto simp: less_2_cases_iff)
  have e: "map_sum id rank_key
             (evaluate_hand (hand (players tie_table ! 0) @ community_cards tie_table))
           = Inr (9, [14, 13, 12, 11, 10])"
      "map_sum id rank_key
             (evaluate_hand (hand (players tie_table ! 1) @ community_cards tie_table))
           = Inr (9, [14, 13, 12, 11, 10])"
    by code_simp+
  from showdown_split [OF two board hands] obtain s' key where
    er: "end_round tie_table = Inr s'" and
    k: "\<forall>i. i < length (players tie_table) \<and> \<not> is_folded (players tie_table ! i) \<longrightarrow>
          (\<exists>r. evaluate_hand (hand (players tie_table ! i) @ community_cards tie_table) = Inr r
               \<and> key i = rank_key r)"
    and p: "pot s' = pot tie_table + sum_list (map bet (players tie_table))"
    and c: "\<forall>i<length (players tie_table).
          chips (players s' ! i) =
            chips (players tie_table ! i) +
            (if \<not> is_folded (players tie_table ! i)
                \<and> (\<forall>j. j < length (players tie_table) \<and> \<not> is_folded (players tie_table ! j)
                       \<longrightarrow> key j \<le> key i)
             then (pot tie_table + sum_list (map bet (players tie_table)))
                    div int (card {i. i < length (players tie_table)
                       \<and> \<not> is_folded (players tie_table ! i)
                       \<and> (\<forall>j. j < length (players tie_table)
                              \<and> \<not> is_folded (players tie_table ! j) \<longrightarrow> key j \<le> key i)})
             else 0)"
    by blast
  have k0: "key 0 = (9, [14, 13, 12, 11, 10])" using k [rule_format, of 0] v e(1) by auto
  have k1: "key 1 = (9, [14, 13, 12, 11, 10])" using k [rule_format, of 1] v e(2) by auto
  have all: "j < 2 \<Longrightarrow> key j = (9, [14, 13, 12, 11, 10])" for j
    using k0 k1 by (cases j) auto
  have W: "{i. i < length (players tie_table) \<and> \<not> is_folded (players tie_table ! i)
              \<and> (\<forall>j. j < length (players tie_table) \<and> \<not> is_folded (players tie_table ! j)
                     \<longrightarrow> key j \<le> key i)} = {0, 1}"
    using v all by (auto simp: less_2_cases_iff)
  have "chips (players s' ! 0) = 550"
    using c [rule_format, of 0] v all unfolding W by simp
  moreover have "chips (players s' ! 1) = 449"
    using c [rule_format, of 1] v all unfolding W by simp
  ultimately show ?thesis using er p v by simp
qed

end
